theory Spec2Isabelle
  imports Main
begin

section \<open>Strings\<close>

text \<open>
  A JavaScript string is a sequence of UTF-16 code units. The model writes it as a
  \<^typ>\<open>string\<close>, one \<^typ>\<open>char\<close> per code unit; \<open>length\<close> is the
  \<open>.length\<close> of the source and offsets count code units.
\<close>

definition js_slice :: "string \<Rightarrow> int \<Rightarrow> int \<Rightarrow> string" where
  \<comment> \<open>\<open>String.prototype.slice(start, end)\<close>: a negative offset counts from the end,
      both offsets are clamped to the string, an empty span gives the empty string.\<close>
  "js_slice s start end' =
     (let len = int (length s);
          from = (if start < 0 then max (len + start) 0 else min start len);
          to = (if end' < 0 then max (len + end') 0 else min end' len)
      in take (nat (to - from)) (drop (nat from) s))"

definition js_slice_from :: "string \<Rightarrow> int \<Rightarrow> string" where
  \<comment> \<open>\<open>slice(start)\<close>: the end defaults to the length.\<close>
  "js_slice_from s start = js_slice s start (int (length s))"

section \<open>Vault.ts: applying a batch of file changes\<close>

record FileChange =
  startIndex :: int
  endIndex :: int
  oldContent :: string
  newContent :: string

text \<open>
  What the callback of \<open>applyFileChanges\<close> reports through \<open>console.warn\<close> before it
  returns \<open>null\<close>.
\<close>

datatype conflict =
    ContentMismatch int int string string
  | OverlappingChanges FileChange FileChange

fun verifyChanges :: "string \<Rightarrow> FileChange list \<Rightarrow> conflict option" where
  \<comment> \<open>lines 91-97: the first change whose expected text is not at its range.\<close>
  "verifyChanges content [] = None"
| "verifyChanges content (change # changes) =
     (let actualContent = js_slice content (startIndex change) (endIndex change)
      in if actualContent \<noteq> oldContent change
         then Some (ContentMismatch (startIndex change) (endIndex change)
                      (oldContent change) actualContent)
         else verifyChanges content changes)"

definition sortChanges :: "FileChange list \<Rightarrow> FileChange list" where
  \<comment> \<open>line 99: \<open>Array.prototype.sort\<close> is stable; the comparator orders by \<open>startIndex\<close>.\<close>
  "sortChanges changes = sort_key startIndex changes"

fun filterDuplicates :: "FileChange \<Rightarrow> FileChange list \<Rightarrow> FileChange list" where
  \<comment> \<open>lines 102-107 at an index above 0: kept unless \<open>deepEqual\<close> to the entry before it
      in the sorted array; \<open>deepEqual\<close> on two changes is equality of their four fields.\<close>
  "filterDuplicates previous [] = []"
| "filterDuplicates previous (change # changes) =
     (if change = previous then filterDuplicates change changes
      else change # filterDuplicates change changes)"

definition removeDuplicates :: "FileChange list \<Rightarrow> FileChange list" where
  \<comment> \<open>lines 102-107: index 0 is always kept.\<close>
  "removeDuplicates changes =
     (case changes of [] \<Rightarrow> [] | change # rest \<Rightarrow> change # filterDuplicates change rest)"

fun findOverlap :: "FileChange list \<Rightarrow> conflict option" where
  \<comment> \<open>lines 109-116: the first adjacent pair with \<open>previousChange.endIndex > change.startIndex\<close>.\<close>
  "findOverlap (previousChange # change # changes) =
     (if endIndex previousChange > startIndex change
      then Some (OverlappingChanges previousChange change)
      else findOverlap (change # changes))"
| "findOverlap _ = None"

fun mergeLoop :: "string \<Rightarrow> FileChange list \<Rightarrow> string \<Rightarrow> int \<Rightarrow> string" where
  \<comment> \<open>lines 118-128, with the two loop variables \<open>newContent\<close> and \<open>lastIndex\<close>.\<close>
  "mergeLoop content [] acc lastIndex = acc @ js_slice_from content lastIndex"
| "mergeLoop content (change # changes) acc lastIndex =
     mergeLoop content changes
       (acc @ js_slice content lastIndex (startIndex change) @ newContent change)
       (endIndex change)"

definition mergeChanges :: "string \<Rightarrow> FileChange list \<Rightarrow> string" where
  "mergeChanges content changes = mergeLoop content changes [] 0"

definition validateChanges :: "string \<Rightarrow> FileChange list \<Rightarrow> conflict + FileChange list" where
  \<comment> \<open>lines 91-116: the list that reaches the merge, or the conflict that was logged.\<close>
  "validateChanges content changes =
     (case verifyChanges content changes of
        Some c \<Rightarrow> Inl c
      | None \<Rightarrow>
          (let deduped = removeDuplicates (sortChanges changes)
           in case findOverlap deduped of
                Some c \<Rightarrow> Inl c
              | None \<Rightarrow> Inr deduped))"

definition applyChangesToContent :: "string \<Rightarrow> FileChange list \<Rightarrow> conflict + string" where
  \<comment> \<open>lines 88-129, the callback given to \<open>processWithRetry\<close>; \<open>Inl\<close> is its \<open>null\<close>.\<close>
  "applyChangesToContent content changes =
     (case validateChanges content changes of
        Inl c \<Rightarrow> Inl c
      | Inr validated \<Rightarrow> Inr (mergeChanges content validated))"

section \<open>Vault.ts: the read, process, write cycle\<close>

text \<open>
  The world of one file: its content, the texts that callbacks of \<open>vault.process\<close>
  have returned for storing, and what was logged through \<open>console.warn\<close>.
\<close>

datatype warning = ConflictWarning conflict | ContentChangedWarning

record world =
  fileContent :: string
  written :: "string list"
  warnings :: "warning list"

text \<open>
  What surrounds one attempt: the value the caller's function produces in it, what other
  writers do to the file while that function runs, and the time the attempt takes beyond
  one millisecond.
\<close>

record 'p attemptEnv =
  produced :: 'p
  otherWriters :: "string \<Rightarrow> string"
  duration :: nat

definition attempt ::
  "(string \<Rightarrow> warning list \<times> string option) \<Rightarrow> (string \<Rightarrow> string) \<Rightarrow> world \<Rightarrow> bool \<times> world" where
  \<comment> \<open>lines 64-82, the function given to \<open>retryWithTimeout\<close>.\<close>
  "attempt processFn others w =
     (let oldContent = fileContent w in
      case processFn oldContent of (logged, result) \<Rightarrow>
        (let w1 = w\<lparr>fileContent := others oldContent, warnings := warnings w @ logged\<rparr> in
         case result of
           None \<Rightarrow> (False, w1)
         | Some new \<Rightarrow>
             (let content = fileContent w1 in
              if content \<noteq> oldContent
              then (False, w1\<lparr>written := written w1 @ [content],
                                warnings := warnings w1 @ [ContentChangedWarning]\<rparr>)
              else (True, w1\<lparr>fileContent := new, written := written w1 @ [new]\<rparr>))))"

datatype error = TimeoutExceeded

record RetryOptions =
  timeoutInMilliseconds :: "nat option"

definition overriddenTimeout :: "RetryOptions \<Rightarrow> nat" where
  \<comment> \<open>lines 62-63 and 86-87: \<open>{ ...DEFAULT_RETRY_OPTIONS, ...retryOptions }\<close>.\<close>
  "overriddenTimeout retryOptions =
     (case timeoutInMilliseconds retryOptions of Some t \<Rightarrow> t | None \<Rightarrow> 60000)"

text \<open>
  Modelled from the spec: \<open>retryWithTimeout\<close> of \<open>obsidian-dev-utils/Async\<close>, which is not
  among the sources. It runs a unit of work that returns success or failure, runs it again
  on failure until it succeeds or the elapsed time exceeds the budget, and then raises a
  timeout error; there is no bound on the number of attempts. Attempt \<open>n\<close> takes
  \<open>Suc (duration n)\<close> milliseconds.
\<close>

function retryWithTimeout ::
  "nat \<Rightarrow> (nat \<Rightarrow> 'w \<Rightarrow> bool \<times> 'w) \<Rightarrow> (nat \<Rightarrow> nat) \<Rightarrow> nat \<Rightarrow> nat \<Rightarrow> 'w \<Rightarrow> error option \<times> 'w" where
  "retryWithTimeout timeout fn time n elapsed w =
     (case fn n w of (ok, w') \<Rightarrow>
        if ok then (None, w')
        else if timeout < elapsed + Suc (time n) then (Some TimeoutExceeded, w')
        else retryWithTimeout timeout fn time (Suc n) (elapsed + Suc (time n)) w')"
  by pat_completeness auto
termination
  by (relation "measure (\<lambda>(timeout, fn, time, n, elapsed, w). Suc timeout - elapsed)") auto

definition processCycle ::
  "(nat \<Rightarrow> (string \<Rightarrow> warning list \<times> string option) attemptEnv) \<Rightarrow> nat \<Rightarrow> nat \<Rightarrow> nat \<Rightarrow> world
     \<Rightarrow> error option \<times> world" where
  \<comment> \<open>the retry loop of \<open>processWithRetry\<close> from attempt \<open>n\<close> on.\<close>
  "processCycle env timeout n elapsed w =
     retryWithTimeout timeout (\<lambda>k. attempt (produced (env k)) (otherWriters (env k)))
       (\<lambda>k. duration (env k)) n elapsed w"

definition processWithRetry ::
  "(nat \<Rightarrow> (string \<Rightarrow> warning list \<times> string option) attemptEnv) \<Rightarrow> RetryOptions \<Rightarrow> world
     \<Rightarrow> error option \<times> world" where
  \<comment> \<open>lines 61-83.\<close>
  "processWithRetry env retryOptions w =
     processCycle env (overriddenTimeout retryOptions) 0 0 w"

definition changesCallback :: "FileChange list \<Rightarrow> string \<Rightarrow> warning list \<times> string option" where
  \<comment> \<open>lines 88-129 as \<open>processWithRetry\<close> sees them: a conflict is logged and gives \<open>null\<close>.\<close>
  "changesCallback changes content =
     (case applyChangesToContent content changes of
        Inl c \<Rightarrow> ([ConflictWarning c], None)
      | Inr merged \<Rightarrow> ([], Some merged))"

definition changesEnv ::
  "(nat \<Rightarrow> FileChange list attemptEnv) \<Rightarrow> nat \<Rightarrow> (string \<Rightarrow> warning list \<times> string option) attemptEnv" where
  "changesEnv env k =
     \<lparr>produced = changesCallback (produced (env k)), otherWriters = otherWriters (env k),
      duration = duration (env k)\<rparr>"

definition applyFileChanges ::
  "(nat \<Rightarrow> FileChange list attemptEnv) \<Rightarrow> RetryOptions \<Rightarrow> world \<Rightarrow> error option \<times> world" where
  \<comment> \<open>lines 85-130; \<open>produced (env k)\<close> is what \<open>changesFn()\<close> returns in attempt \<open>k\<close>.\<close>
  "applyFileChanges env retryOptions w =
     processWithRetry (changesEnv env)
       \<lparr>timeoutInMilliseconds = Some (overriddenTimeout retryOptions)\<rparr> w"

text \<open>The merge as the specification words it, over offsets of the snapshot.\<close>

definition textBefore :: "string \<Rightarrow> int \<Rightarrow> string" where
  "textBefore content i = take (nat i) content"

definition textBetween :: "string \<Rightarrow> int \<Rightarrow> int \<Rightarrow> string" where
  "textBetween content i j = drop (nat i) (take (nat j) content)"

definition textAfter :: "string \<Rightarrow> int \<Rightarrow> string" where
  "textAfter content i = drop (nat i) content"

fun specMergeRest :: "string \<Rightarrow> FileChange \<Rightarrow> FileChange list \<Rightarrow> string" where
  "specMergeRest content previous [] = textAfter content (endIndex previous)"
| "specMergeRest content previous (change # changes) =
     textBetween content (endIndex previous) (startIndex change) @ newContent change
       @ specMergeRest content change changes"

definition specMerge :: "string \<Rightarrow> FileChange list \<Rightarrow> string" where
  "specMerge content changes =
     (case changes of
        [] \<Rightarrow> content
      | change # rest \<Rightarrow>
          textBefore content (startIndex change) @ newContent change
            @ specMergeRest content change rest)"

definition offsetsNonNegative :: "FileChange list \<Rightarrow> bool" where
  "offsetsNonNegative changes =
     list_all (\<lambda>change. 0 \<le> startIndex change \<and> 0 \<le> endIndex change) changes"



text \<open>Environments for concrete runs: every attempt alike; another writer that appends.\<close>

definition everyAttempt :: "'p attemptEnv \<Rightarrow> nat \<Rightarrow> 'p attemptEnv" where
  "everyAttempt e k = e"

definition appendText :: "string \<Rightarrow> string \<Rightarrow> string" where
  "appendText t s = s @ t"

section \<open>Substitutions.ts: the token pattern\<close>

text \<open>
  \<open>SUBSTITUTION_TOKEN_REG_EXP\<close> is \<^verbatim>\<open>/\${(.+?)(?::(.+?))?}/g\<close>. The dot matches any code
  unit but a line terminator; of the four line terminators of the language, line feed and
  carriage return are characters of the model (U+2028 and U+2029 lie outside its 8-bit
  characters). The functions below follow the matcher's backtracking order.
\<close>

definition isLineTerminator :: "char \<Rightarrow> bool" where
  "isLineTerminator c = (c = CHR 0x0A \<or> c = CHR 0x0D)"

fun matchFormat :: "string \<Rightarrow> (string \<times> string) option" where
  \<comment> \<open>\<^verbatim>\<open>(.+?)}\<close>: the shortest run of one or more characters that a closing brace follows;
      the format and the text after the brace.\<close>
  "matchFormat [] = None"
| "matchFormat (c # cs) =
     (if isLineTerminator c then None
      else case cs of
             [] \<Rightarrow> None
           | d # ds \<Rightarrow>
               if d = CHR ''}'' then Some ([c], ds)
               else map_option (\<lambda>(f, r). (c # f, r)) (matchFormat cs))"

definition matchTail :: "string \<Rightarrow> (string option \<times> string) option" where
  \<comment> \<open>\<^verbatim>\<open>(?::(.+?))?}\<close>: the optional group is tried first, then the bare closing brace.\<close>
  "matchTail s =
     (case (case s of [] \<Rightarrow> None
                    | c # cs \<Rightarrow> if c = CHR '':'' then matchFormat cs else None) of
        Some (f, r) \<Rightarrow> Some (Some f, r)
      | None \<Rightarrow>
          (case s of [] \<Rightarrow> None
                   | c # cs \<Rightarrow> if c = CHR ''}'' then Some (None, cs) else None))"

fun matchName :: "string \<Rightarrow> (string \<times> string option \<times> string) option" where
  \<comment> \<open>\<^verbatim>\<open>(.+?)(?::(.+?))?}\<close>: the shortest name after which the rest of the pattern matches.\<close>
  "matchName [] = None"
| "matchName (c # cs) =
     (if isLineTerminator c then None
      else case matchTail cs of
             Some (f, r) \<Rightarrow> Some ([c], f, r)
           | None \<Rightarrow> map_option (\<lambda>(n, f, r). (c # n, f, r)) (matchName cs))"

definition matchToken :: "string \<Rightarrow> (string \<times> string option \<times> string) option" where
  \<comment> \<open>one match of the pattern at the start of the text: name, format, text after it.\<close>
  "matchToken s =
     (case s of
        c # d # cs \<Rightarrow> if c = CHR ''$'' \<and> d = CHR ''{'' then matchName cs else None
      | _ \<Rightarrow> None)"

lemma matchFormat_shorter: "matchFormat s = Some (f, r) \<Longrightarrow> length r < length s"
proof (induction s arbitrary: f r)
  case Nil
  then show ?case by simp
next
  case (Cons c cs)
  show ?case
  proof (cases cs)
    case Nil
    with Cons.prems show ?thesis by (simp split: if_splits)
  next
    case cs: (Cons d ds)
    show ?thesis
    proof (cases "d = CHR ''}''")
      case True
      with cs Cons.prems show ?thesis by (simp split: if_splits)
    next
      case False
      with cs Cons.prems obtain f' where "matchFormat cs = Some (f', r)"
        by (auto split: if_splits)
      from Cons.IH [OF this] show ?thesis by simp
    qed
  qed
qed

lemma matchTail_shorter: "matchTail s = Some (f, r) \<Longrightarrow> length r < length s"
proof (cases s)
  case Nil
  then show "matchTail s = Some (f, r) \<Longrightarrow> length r < length s"
    by (simp add: matchTail_def)
next
  case (Cons c cs)
  assume m: "matchTail s = Some (f, r)"
  show "length r < length s"
  proof (cases "c = CHR '':''")
    case True
    with m Cons obtain f' where "matchFormat cs = Some (f', r)"
      by (auto simp: matchTail_def split: option.splits)
    from matchFormat_shorter [OF this] Cons show ?thesis by simp
  next
    case False
    with m Cons show ?thesis
      by (simp add: matchTail_def split: if_splits)
  qed
qed

lemma matchName_shorter: "matchName s = Some (n, f, r) \<Longrightarrow> length r < length s"
proof (induction s arbitrary: n f r)
  case Nil
  then show ?case by simp
next
  case (Cons c cs)
  show ?case
  proof (cases "matchTail cs")
    case None
    with Cons.prems obtain n' where "matchName cs = Some (n', f, r)"
      by (auto split: if_splits)
    from Cons.IH [OF this] show ?thesis by simp
  next
    case (Some t)
    with Cons.prems have "matchTail cs = Some (f, r)"
      by (cases t) (simp split: if_splits)
    from matchTail_shorter [OF this] show ?thesis by simp
  qed
qed

lemma matchToken_shorter: "matchToken s = Some (n, f, r) \<Longrightarrow> length r < length s"
proof -
  assume m: "matchToken s = Some (n, f, r)"
  then obtain cs where s: "s = CHR ''$'' # CHR ''{'' # cs" and "matchName cs = Some (n, f, r)"
    by (cases s; cases "tl s") (auto simp: matchToken_def split: if_splits)
  from matchName_shorter [OF this(2)] s show ?thesis by simp
qed

text \<open>
  The global scan that \<open>replace\<close>, \<open>matchAll\<close> and \<open>match\<close> share: from left to
  right, a match where there is one, and then on from its end, else one character of text.
\<close>

datatype piece = Text char | Token string "string option"

function matchAll :: "string \<Rightarrow> piece list" where
  "matchAll [] = []"
| "matchAll (c # cs) =
     (case matchToken (c # cs) of
        Some (n, f, r) \<Rightarrow> Token n f # matchAll r
      | None \<Rightarrow> Text c # matchAll cs)"
  by pat_completeness auto
termination
proof (relation "measure length", goal_cases)
  case 1
  show ?case by simp
next
  case 2
  show ?case by simp
next
  case (3 c cs x2 n y f r)
  then have "matchToken (c # cs) = Some (n, f, r)" by simp
  from matchToken_shorter [OF this] show ?case by simp
qed

fun isToken :: "piece \<Rightarrow> bool" where
  "isToken (Token n f) = True"
| "isToken (Text c) = False"

definition hasMatch :: "string \<Rightarrow> bool" where
  \<comment> \<open>\<open>str.match(SUBSTITUTION_TOKEN_REG_EXP)\<close> is not \<open>null\<close>.\<close>
  "hasMatch s = list_ex isToken (matchAll s)"

fun bareToken :: "piece \<Rightarrow> string" where
  \<comment> \<open>the replacement of \<open>removeTokenFormatting\<close> for a match; text stays.\<close>
  "bareToken (Text c) = [c]"
| "bareToken (Token n f) = ''${'' @ n @ ''}''"

definition removeTokenFormatting :: "string \<Rightarrow> string" where
  \<comment> \<open>lines 180-182.\<close>
  "removeTokenFormatting str = concat (map bareToken (matchAll str))"

fun tokenText :: "string \<Rightarrow> string option \<Rightarrow> string" where
  \<comment> \<open>the text of a match with this name and format.\<close>
  "tokenText n None = ''${'' @ n @ ''}''"
| "tokenText n (Some f) = ''${'' @ n @ '':'' @ f @ ''}''"

section \<open>Substitutions.ts: the registry of formatters\<close>

definition toLowerChar :: "char \<Rightarrow> char" where
  \<comment> \<open>\<open>toLowerCase\<close> on the letters A to Z; the registered names are ASCII.\<close>
  "toLowerChar c =
     (case map_of (zip ''ABCDEFGHIJKLMNOPQRSTUVWXYZ'' ''abcdefghijklmnopqrstuvwxyz'') c of
        Some l \<Rightarrow> l
      | None \<Rightarrow> c)"

definition toLowerCase :: "string \<Rightarrow> string" where
  "toLowerCase s = map toLowerChar s"

datatype formatter =
    Date | FileName | FilePath | FolderName | FolderPath
  | OriginalCopiedFileExtension | OriginalCopiedFileName
  | Prompt | RandomDigit | RandomDigitOrLetter | RandomLetter | Uuid

definition registerFormatter ::
  "string \<Rightarrow> formatter \<Rightarrow> (string \<rightharpoonup> formatter) \<Rightarrow> (string \<rightharpoonup> formatter)" where
  \<comment> \<open>lines 84-86.\<close>
  "registerFormatter token f m = m(toLowerCase token \<mapsto> f)"

definition formatters :: "string \<rightharpoonup> formatter" where
  \<comment> \<open>lines 45-60, the registrations in their order.\<close>
  "formatters =
     registerFormatter ''uuid'' Uuid
    (registerFormatter ''randomLetter'' RandomLetter
    (registerFormatter ''randomDigitOrLetter'' RandomDigitOrLetter
    (registerFormatter ''randomDigit'' RandomDigit
    (registerFormatter ''prompt'' Prompt
    (registerFormatter ''originalCopiedFileName'' OriginalCopiedFileName
    (registerFormatter ''originalCopiedFileExtension'' OriginalCopiedFileExtension
    (registerFormatter ''folderPath'' FolderPath
    (registerFormatter ''folderName'' FolderName
    (registerFormatter ''filePath'' FilePath
    (registerFormatter ''fileName'' FileName
    (registerFormatter ''date'' Date Map.empty)))))))))))"

definition isRegisteredToken :: "string \<Rightarrow> bool" where
  \<comment> \<open>lines 80-82.\<close>
  "isRegisteredToken token = (formatters (toLowerCase token) \<noteq> None)"

fun firstUnregistered :: "piece list \<Rightarrow> string option" where
  "firstUnregistered [] = None"
| "firstUnregistered (Text c # ps) = firstUnregistered ps"
| "firstUnregistered (Token n f # ps) =
     (if \<not> isRegisteredToken n then Some n else firstUnregistered ps)"

definition validateTokens :: "string \<Rightarrow> string option" where
  \<comment> \<open>lines 184-193.\<close>
  "validateTokens str = firstUnregistered (matchAll str)"

section \<open>Substitutions.ts: validation of names and paths\<close>

definition INVALID_FILENAME_PATH_CHARS :: string where
  \<comment> \<open>the class of \<^verbatim>\<open>/[\\/:*?"<>|]/\<close>.\<close>
  "INVALID_FILENAME_PATH_CHARS =
     [CHR 0x5C, CHR ''/'', CHR '':'', CHR ''*'', CHR ''?'', CHR 0x22, CHR ''<'', CHR ''>'', CHR ''|'']"

definition hasInvalidChars :: "string \<Rightarrow> bool" where
  "hasInvalidChars s = list_ex (\<lambda>c. c \<in> set INVALID_FILENAME_PATH_CHARS) s"

definition moreThanTwoDots :: "string \<Rightarrow> bool" where
  \<comment> \<open>\<^verbatim>\<open>/^\.{3,}$/\<close>: the whole text is three dots or more.\<close>
  "moreThanTwoDots s = (3 \<le> length s \<and> list_all (\<lambda>c. c = CHR ''.'') s)"

definition trailingDotsOrSpaces :: "string \<Rightarrow> bool" where
  \<comment> \<open>\<^verbatim>\<open>/[. ]+$/\<close>: the text ends in a dot or a space.\<close>
  "trailingDotsOrSpaces s = (s \<noteq> [] \<and> (last s = CHR ''.'' \<or> last s = CHR '' ''))"

definition quoted :: "string \<Rightarrow> string" where
  "quoted s = [CHR 0x22] @ s @ [CHR 0x22]"

definition validateFilename :: "string \<Rightarrow> bool \<Rightarrow> string" where
  \<comment> \<open>lines 113-148; the empty string says the name is valid.\<close>
  "validateFilename filename areTokensAllowed =
     (let checked =
        (if areTokensAllowed
         then (let filename' = removeTokenFormatting filename
               in case validateTokens filename' of
                    Some unknownToken \<Rightarrow> Inl (''Unknown token: '' @ unknownToken)
                  | None \<Rightarrow> Inr filename')
         else if hasMatch filename then Inl ''Tokens are not allowed in file name''
         else Inr filename)
      in case checked of
           Inl message \<Rightarrow> message
         | Inr name \<Rightarrow>
             if name = ''.'' \<or> name = ''..'' then ''''
             else if name = '''' then ''File name is empty''
             else if hasInvalidChars name
               then ''File name '' @ quoted name @ '' contains invalid symbols''
             else if moreThanTwoDots name
               then ''File name '' @ quoted name @ '' contains more than two dots''
             else if trailingDotsOrSpaces name
               then ''File name '' @ quoted name @ '' contains trailing dots or spaces''
             else '''')"

text \<open>
  Modelled from the spec: \<open>trimStart\<close> and \<open>trimEnd\<close> of \<open>obsidian-dev-utils/String\<close>, which
  are not among the sources. The specification has \<open>validatePath\<close> trim the leading and
  the trailing separators.
\<close>

definition trimStart :: "string \<Rightarrow> char \<Rightarrow> string" where
  "trimStart str sep = dropWhile (\<lambda>c. c = sep) str"

definition trimEnd :: "string \<Rightarrow> char \<Rightarrow> string" where
  "trimEnd str sep = rev (dropWhile (\<lambda>c. c = sep) (rev str))"

fun split :: "string \<Rightarrow> char \<Rightarrow> string list" where
  \<comment> \<open>\<open>String.prototype.split\<close> on a one-character separator.\<close>
  "split [] sep = [[]]"
| "split (c # cs) sep =
     (if c = sep then [] # split cs sep
      else case split cs sep of
             [] \<Rightarrow> [[c]]
           | part # parts \<Rightarrow> (c # part) # parts)"

fun validateParts :: "string list \<Rightarrow> string" where
  \<comment> \<open>lines 165-173: the first error among the parts.\<close>
  "validateParts [] = ''''"
| "validateParts (part # parts) =
     (let partValidationError = validateFilename part True
      in if partValidationError \<noteq> '''' then partValidationError else validateParts parts)"

definition firstError :: "string list \<Rightarrow> string" where
  \<comment> \<open>the first message that is not empty, read off a list of validation results.\<close>
  "firstError messages = (case find (\<lambda>e. e \<noteq> '''') messages of None \<Rightarrow> '''' | Some e \<Rightarrow> e)"

definition validatePathWith ::
  "(string \<Rightarrow> char \<Rightarrow> string) \<Rightarrow> (string \<Rightarrow> char \<Rightarrow> string) \<Rightarrow> string \<Rightarrow> string" where
  \<comment> \<open>lines 150-174, over the two helpers the function imports.\<close>
  "validatePathWith trimStart' trimEnd' path =
     (let path1 = removeTokenFormatting path
      in case validateTokens path1 of
           Some unknownToken \<Rightarrow> ''Unknown token: '' @ unknownToken
         | None \<Rightarrow>
             (let path2 = trimEnd' (trimStart' path1 CHR ''/'') CHR ''/''
              in if path2 = '''' then '''' else validateParts (split path2 CHR ''/'')))"

definition validatePath :: "string \<Rightarrow> string" where
  "validatePath path = validatePathWith trimStart trimEnd path"

text \<open>
  The words of the specification also fit helpers that remove one separator only. What
  is proved for one leading and one trailing separator needs no more of a helper than
  this: it returns a text that does not begin (end) with the separator as it is, and
  removes the separator put before (after) such a text.
\<close>

definition trimsLeading :: "(string \<Rightarrow> char \<Rightarrow> string) \<Rightarrow> bool" where
  "trimsLeading f =
     (\<forall>s sep. (s = [] \<or> hd s \<noteq> sep) \<longrightarrow> f s sep = s \<and> f (sep # s) sep = s)"

definition trimsTrailing :: "(string \<Rightarrow> char \<Rightarrow> string) \<Rightarrow> bool" where
  "trimsTrailing f =
     (\<forall>s sep. (s = [] \<or> last s \<noteq> sep) \<longrightarrow> f s sep = s \<and> f (s @ [sep]) sep = s)"

definition trimStartOnce :: "string \<Rightarrow> char \<Rightarrow> string" where
  "trimStartOnce str sep = (case str of [] \<Rightarrow> [] | c # cs \<Rightarrow> if c = sep then cs else str)"

definition trimEndOnce :: "string \<Rightarrow> char \<Rightarrow> string" where
  "trimEndOnce str sep = (if str \<noteq> [] \<and> last str = sep then butlast str else str)"

section \<open>Templates built from text and registered tokens\<close>

text \<open>
  A template written as a sequence of segments: plain text without a dollar sign, or a
  token \<^verbatim>\<open>${name}\<close> or \<^verbatim>\<open>${name:format}\<close>. A format, as the pattern reads one, is one
  character or more, none a line terminator, with no closing brace after the first.
\<close>

datatype segment = Plain string | Placeholder string "string option"

fun renderSegment :: "segment \<Rightarrow> string" where
  "renderSegment (Plain s) = s"
| "renderSegment (Placeholder n None) = ''${'' @ n @ ''}''"
| "renderSegment (Placeholder n (Some f)) = ''${'' @ n @ '':'' @ f @ ''}''"

definition render :: "segment list \<Rightarrow> string" where
  "render segs = concat (map renderSegment segs)"

definition validFormat :: "string \<Rightarrow> bool" where
  "validFormat f =
     (f \<noteq> [] \<and> list_all (\<lambda>c. \<not> isLineTerminator c) f \<and> CHR ''}'' \<notin> set (tl f))"

fun wellFormed :: "segment \<Rightarrow> bool" where
  "wellFormed (Plain s) = (CHR ''$'' \<notin> set s)"
| "wellFormed (Placeholder n None) = isRegisteredToken n"
| "wellFormed (Placeholder n (Some f)) = (isRegisteredToken n \<and> validFormat f)"

fun withoutFormat :: "segment \<Rightarrow> segment" where
  "withoutFormat (Plain s) = Plain s"
| "withoutFormat (Placeholder n f) = Placeholder n None"

fun segmentPieces :: "segment \<Rightarrow> piece list" where
  "segmentPieces (Plain s) = map Text s"
| "segmentPieces (Placeholder n f) = [Token n f]"

definition goodName :: "string \<Rightarrow> bool" where
  \<comment> \<open>a name that the pattern reads whole: no line terminator, colon or closing brace.\<close>
  "goodName n =
     (n \<noteq> [] \<and> list_all (\<lambda>c. \<not> isLineTerminator c \<and> c \<noteq> CHR '':'' \<and> c \<noteq> CHR ''}'') n)"

section \<open>Substitutions.ts: filling a template\<close>

record Substitutions =
  folderPath :: string
  fileName :: string
  filePath :: string
  folderName :: string
  originalCopiedFileExtension :: string
  originalCopiedFileName :: string

text \<open>
  What the formatters ask of their surroundings, over a state \<open>'h\<close> of those surroundings:
  \<open>moment().format(format)\<close>, \<open>Math.floor(Math.random() * n)\<close>, \<open>crypto.randomUUID()\<close>, and
  the prompt with its default value, which gives \<open>None\<close> when the user cancels.
\<close>

record 'h host =
  momentFormat :: "string option \<Rightarrow> 'h \<Rightarrow> string \<times> 'h"
  randomIndex :: "nat \<Rightarrow> 'h \<Rightarrow> nat \<times> 'h"
  randomUUID :: "'h \<Rightarrow> string \<times> 'h"
  promptModal :: "string \<Rightarrow> 'h \<Rightarrow> string option \<times> 'h"

datatype fillError = InvalidToken string | PromptCancelled

text \<open>
  The promise the replacer returns for one match: rejected at once, because the replacer
  threw before it first suspended; fulfilled with a text; or rejected later.
\<close>

datatype replacement = Thrown fillError | Fulfilled string | Rejected fillError

definition generateRandomSymbol :: "'h host \<Rightarrow> string \<Rightarrow> 'h \<Rightarrow> replacement \<times> 'h" where
  \<comment> \<open>lines 176-178.\<close>
  "generateRandomSymbol hst symbols h =
     (case randomIndex hst (length symbols) h of
        (i, h') \<Rightarrow> (Fulfilled (if i < length symbols then [symbols ! i] else ''''), h'))"

fun runFormatter ::
  "'h host \<Rightarrow> formatter \<Rightarrow> Substitutions \<Rightarrow> string option \<Rightarrow> 'h \<Rightarrow> replacement \<times> 'h" where
  \<comment> \<open>lines 48-59 and 99-110.\<close>
  "runFormatter hst Date subs format h =
     (case momentFormat hst format h of (s, h') \<Rightarrow> (Fulfilled s, h'))"
| "runFormatter hst FileName subs format h = (Fulfilled (fileName subs), h)"
| "runFormatter hst FilePath subs format h = (Fulfilled (filePath subs), h)"
| "runFormatter hst FolderName subs format h = (Fulfilled (folderName subs), h)"
| "runFormatter hst FolderPath subs format h = (Fulfilled (folderPath subs), h)"
| "runFormatter hst OriginalCopiedFileExtension subs format h =
     (Fulfilled (originalCopiedFileExtension subs), h)"
| "runFormatter hst OriginalCopiedFileName subs format h =
     (Fulfilled (originalCopiedFileName subs), h)"
| "runFormatter hst Prompt subs format h =
     (case promptModal hst (originalCopiedFileName subs) h of
        (None, h') \<Rightarrow> (Rejected PromptCancelled, h')
      | (Some promptResult, h') \<Rightarrow> (Fulfilled promptResult, h'))"
| "runFormatter hst RandomDigit subs format h = generateRandomSymbol hst ''0123456789'' h"
| "runFormatter hst RandomDigitOrLetter subs format h =
     generateRandomSymbol hst ''0123456789ABCDEFGHIJKLMNOPQRSTUVWXYZ'' h"
| "runFormatter hst RandomLetter subs format h =
     generateRandomSymbol hst ''ABCDEFGHIJKLMNOPQRSTUVWXYZ'' h"
| "runFormatter hst Uuid subs format h =
     (case randomUUID hst h of (s, h') \<Rightarrow> (Fulfilled s, h'))"

definition replacer ::
  "'h host \<Rightarrow> Substitutions \<Rightarrow> string \<Rightarrow> string option \<Rightarrow> 'h \<Rightarrow> replacement \<times> 'h" where
  \<comment> \<open>lines 89-96, the function given to \<open>replaceAllAsync\<close>.\<close>
  "replacer hst subs token format h =
     (case formatters (toLowerCase token) of
        None \<Rightarrow> (Thrown (InvalidToken token), h)
      | Some f \<Rightarrow> runFormatter hst f subs format h)"

text \<open>
  Modelled from the spec: \<open>replaceAllAsync\<close> of \<open>obsidian-dev-utils/String\<close>, which is not
  among the sources. The matches are visited from left to right and the replacer is called
  for each; a formatter that suspends does not hold up the others, so a replacer that fails
  at once aborts the call at once; the texts replace the matches in one pass and are not
  scanned again.
\<close>

fun callReplacer ::
  "(string \<Rightarrow> string option \<Rightarrow> 'h \<Rightarrow> replacement \<times> 'h) \<Rightarrow> piece list \<Rightarrow> 'h
     \<Rightarrow> replacement list \<times> 'h" where
  "callReplacer r [] h = ([], h)"
| "callReplacer r (Text c # ps) h = callReplacer r ps h"
| "callReplacer r (Token n f # ps) h =
     (case r n f h of (x, h1) \<Rightarrow>
        case callReplacer r ps h1 of (xs, h2) \<Rightarrow> (x # xs, h2))"

fun firstThrown :: "replacement list \<Rightarrow> fillError option" where
  "firstThrown [] = None"
| "firstThrown (Thrown e # xs) = Some e"
| "firstThrown (x # xs) = firstThrown xs"

fun firstRejected :: "replacement list \<Rightarrow> fillError option" where
  "firstRejected [] = None"
| "firstRejected (Rejected e # xs) = Some e"
| "firstRejected (x # xs) = firstRejected xs"

fun fulfilledTexts :: "replacement list \<Rightarrow> string list" where
  "fulfilledTexts [] = []"
| "fulfilledTexts (Fulfilled s # xs) = s # fulfilledTexts xs"
| "fulfilledTexts (x # xs) = fulfilledTexts xs"

fun assemble :: "piece list \<Rightarrow> string list \<Rightarrow> string" where
  \<comment> \<open>the second pass: each match takes the next text.\<close>
  "assemble [] ts = []"
| "assemble (Text c # ps) ts = c # assemble ps ts"
| "assemble (Token n f # ps) (t # ts) = t @ assemble ps ts"
| "assemble (Token n f # ps) [] = assemble ps []"

definition replaceAllAsync ::
  "(string \<Rightarrow> string option \<Rightarrow> 'h \<Rightarrow> replacement \<times> 'h) \<Rightarrow> string \<Rightarrow> 'h
     \<Rightarrow> (fillError + string) \<times> 'h" where
  "replaceAllAsync r str h =
     (case callReplacer r (matchAll str) h of
        (xs, h') \<Rightarrow>
          (case firstThrown xs of
             Some e \<Rightarrow> Inl e
           | None \<Rightarrow>
               (case firstRejected xs of
                  Some e \<Rightarrow> Inl e
                | None \<Rightarrow> Inr (assemble (matchAll str) (fulfilledTexts xs))),
           h'))"

definition fillTemplate ::
  "'h host \<Rightarrow> Substitutions \<Rightarrow> string \<Rightarrow> 'h \<Rightarrow> (fillError + string) \<times> 'h" where
  \<comment> \<open>lines 88-97.\<close>
  "fillTemplate hst subs template h = replaceAllAsync (replacer hst subs) template h"

definition formatterTexts :: "'h host \<Rightarrow> Substitutions \<Rightarrow> string \<Rightarrow> 'h \<Rightarrow> string list" where
  \<comment> \<open>the texts the formatters return for the matches of a template, in order.\<close>
  "formatterTexts hst subs template h =
     fulfilledTexts (fst (callReplacer (replacer hst subs) (matchAll template) h))"

definition cleanText :: "string \<Rightarrow> bool" where
  "cleanText t = (t \<noteq> [] \<and> CHR ''$'' \<notin> set t \<and> CHR ''{'' \<notin> set t)"

definition fixedHost :: "string \<Rightarrow> nat \<Rightarrow> string \<Rightarrow> string option \<Rightarrow> unit host" where
  \<comment> \<open>surroundings that always answer the same, for concrete runs.\<close>
  "fixedHost date i uuid answer =
     \<lparr>momentFormat = (\<lambda>format h. (date, h)), randomIndex = (\<lambda>n h. (i, h)),
      randomUUID = (\<lambda>h. (uuid, h)), promptModal = (\<lambda>defaultValue h. (answer, h))\<rparr>"

fun registeredPiece :: "piece \<Rightarrow> bool" where
  "registeredPiece (Text c) = True"
| "registeredPiece (Token n f) = isRegisteredToken n"

fun noBraceOnLine :: "string \<Rightarrow> bool" where
  \<comment> \<open>no closing brace before the first line terminator.\<close>
  "noBraceOnLine [] = True"
| "noBraceOnLine (c # cs) = (isLineTerminator c \<or> (c \<noteq> CHR ''}'' \<and> noBraceOnLine cs))"

definition closable :: "string \<Rightarrow> bool" where
  \<comment> \<open>one character that is no line terminator, then a closing brace on the same line.\<close>
  "closable s = (case s of [] \<Rightarrow> False | c # cs \<Rightarrow> \<not> isLineTerminator c \<and> \<not> noBraceOnLine cs)"

fun unmatched :: "string \<Rightarrow> bool" where
  \<comment> \<open>the pattern matches at no position.\<close>
  "unmatched [] = True"
| "unmatched (c # cs) = (matchToken (c # cs) = None \<and> unmatched cs)"

fun tokenCount :: "piece list \<Rightarrow> nat" where
  "tokenCount [] = 0"
| "tokenCount (Text c # ps) = tokenCount ps"
| "tokenCount (Token n f # ps) = Suc (tokenCount ps)"

section \<open>Vault.ts: removing a folder\<close>

text \<open>
  A folder of the vault with its children, in the order of \<open>folder.children\<close>. The
  surroundings say which notes link to a file and for which paths \<open>vault.delete\<close> throws
  and leaves the path in place. The state is the list of the paths deleted so far.
\<close>

datatype entry = TFile string | TFolder string "entry list"

record vaultEnv =
  backlinks :: "string \<Rightarrow> string list"
  undeletable :: "string \<Rightarrow> bool"

definition backlinkCount :: "vaultEnv \<Rightarrow> string option \<Rightarrow> string \<Rightarrow> nat" where
  \<comment> \<open>lines 143-147: the notes that link to the file, the removed note left out.\<close>
  "backlinkCount env removedNotePath path =
     (case removedNotePath of
        None \<Rightarrow> length (backlinks env path)
      | Some note \<Rightarrow>
          if note = '''' then length (backlinks env path)
          else length (filter (\<lambda>k. k \<noteq> note) (backlinks env path)))"

fun removeFolderSafe :: "vaultEnv \<Rightarrow> string option \<Rightarrow> entry \<Rightarrow> string list \<Rightarrow> bool \<times> string list"
  and removeChildren ::
    "vaultEnv \<Rightarrow> string option \<Rightarrow> entry list \<Rightarrow> bool \<Rightarrow> string list \<Rightarrow> bool \<times> string list" where
  \<comment> \<open>lines 132-177; \<open>removeChildren\<close> is the loop, with \<open>canRemove\<close> as it stands.\<close>
  "removeFolderSafe env removedNotePath (TFile path) deleted = (False, deleted)"
| "removeFolderSafe env removedNotePath (TFolder path children) deleted =
     (case removeChildren env removedNotePath children True deleted of
        (canRemove, deleted') \<Rightarrow>
          if canRemove
          then (if undeletable env path then (False, deleted') else (True, deleted' @ [path]))
          else (False, deleted'))"
| "removeChildren env removedNotePath [] canRemove deleted = (canRemove, deleted)"
| "removeChildren env removedNotePath (TFile path # rest) canRemove deleted =
     (if backlinkCount env removedNotePath path \<noteq> 0
      then removeChildren env removedNotePath rest False deleted
      else if undeletable env path
      then removeChildren env removedNotePath rest False deleted
      else removeChildren env removedNotePath rest canRemove (deleted @ [path]))"
| "removeChildren env removedNotePath (TFolder path children # rest) canRemove deleted =
     (if canRemove
      then (case removeFolderSafe env removedNotePath (TFolder path children) deleted of
              (removed, deleted') \<Rightarrow> removeChildren env removedNotePath rest removed deleted')
      else removeChildren env removedNotePath rest False deleted)"

definition linkedFrom :: "string \<Rightarrow> string \<Rightarrow> string \<Rightarrow> string list" where
  \<comment> \<open>backlinks for concrete runs: one note links to one file.\<close>
  "linkedFrom file note path = (if path = file then [note] else [])"

definition neverFails :: "string \<Rightarrow> bool" where
  "neverFails path = False"

section \<open>The merge step\<close>

lemma js_slice_nonneg:
  assumes "0 \<le> i" "0 \<le> j"
  shows "js_slice s i j = drop (nat i) (take (nat j) s)"
proof (cases "i < int (length s)")
  case False
  then show ?thesis using assms by (simp add: js_slice_def Let_def)
next
  case True
  show ?thesis
  proof (cases "j \<le> int (length s)")
    case True
    have "nat (j - i) = nat j - nat i" using assms by linarith
    with True \<open>i < int (length s)\<close> assms show ?thesis
      by (simp add: js_slice_def Let_def drop_take)
  next
    case False
    with \<open>i < int (length s)\<close> assms show ?thesis
      by (simp add: js_slice_def Let_def drop_take min_def)
  qed
qed

lemma js_slice_from_nonneg:
  "0 \<le> i \<Longrightarrow> js_slice_from s i = drop (nat i) s"
  by (simp add: js_slice_from_def js_slice_nonneg)

lemma mergeLoop_rest:
  "0 \<le> endIndex previous \<Longrightarrow> offsetsNonNegative changes \<Longrightarrow>
   mergeLoop content changes acc (endIndex previous) =
     acc @ specMergeRest content previous changes"
proof (induction changes arbitrary: acc previous)
  case Nil
  then show ?case by (simp add: js_slice_from_nonneg textAfter_def)
next
  case (Cons change changes)
  from Cons.prems have nn: "0 \<le> startIndex change" "0 \<le> endIndex change"
    and rest: "offsetsNonNegative changes"
    by (simp_all add: offsetsNonNegative_def)
  have "mergeLoop content (change # changes) acc (endIndex previous) =
        mergeLoop content changes
          (acc @ textBetween content (endIndex previous) (startIndex change) @ newContent change)
          (endIndex change)"
    using Cons.prems(1) nn by (simp add: js_slice_nonneg textBetween_def)
  also have "\<dots> = (acc @ textBetween content (endIndex previous) (startIndex change)
                     @ newContent change) @ specMergeRest content change changes"
    using Cons.IH [OF nn(2) rest] .
  finally show ?case by simp
qed

lemma mergeChanges_spec:
  assumes "offsetsNonNegative changes"
  shows "mergeChanges content changes = specMerge content changes"
proof (cases changes)
  case Nil
  then show ?thesis
    by (simp add: mergeChanges_def specMerge_def js_slice_from_nonneg)
next
  case (Cons change rest)
  with assms have nn: "0 \<le> startIndex change" "0 \<le> endIndex change"
    and r: "offsetsNonNegative rest"
    by (simp_all add: offsetsNonNegative_def)
  have "mergeChanges content changes =
        mergeLoop content rest (textBefore content (startIndex change) @ newContent change)
          (endIndex change)"
    using Cons nn by (simp add: mergeChanges_def js_slice_nonneg textBefore_def)
  also have "\<dots> = (textBefore content (startIndex change) @ newContent change)
                     @ specMergeRest content change rest"
    by (rule mergeLoop_rest [OF nn(2) r])
  finally show ?thesis using Cons by (simp add: specMerge_def)
qed

lemma example_merges:
  "applyChangesToContent ''ABCDEFGHIJ''
     [\<lparr>startIndex = 2, endIndex = 4, oldContent = ''CD'', newContent = ''XY''\<rparr>,
      \<lparr>startIndex = 6, endIndex = 8, oldContent = ''GH'', newContent = ''ZZ''\<rparr>]
   = Inr ''ABXYEFZZIJ''"
  by (simp add: applyChangesToContent_def validateChanges_def js_slice_def js_slice_from_def
      sortChanges_def removeDuplicates_def mergeChanges_def)

text \<open>
  C1. The example batch merges to \<open>ABXYEFZZIJ\<close>. In general, for a batch that passes
  validation and whose offsets are offsets of the snapshot (none negative), the callback
  returns the text before the first change's start, then each change's replacement text
  with the snapshot text from the previous change's end to the next change's start
  between them, then the text after the last change's end.
\<close>

theorem merge_is_concatenation:
  "applyChangesToContent ''ABCDEFGHIJ''
     [\<lparr>startIndex = 2, endIndex = 4, oldContent = ''CD'', newContent = ''XY''\<rparr>,
      \<lparr>startIndex = 6, endIndex = 8, oldContent = ''GH'', newContent = ''ZZ''\<rparr>]
   = Inr ''ABXYEFZZIJ''
   \<and> (\<forall>content changes validated.
        validateChanges content changes = Inr validated \<and> offsetsNonNegative validated \<longrightarrow>
        mergeChanges content validated = specMerge content validated
        \<and> applyChangesToContent content changes = Inr (specMerge content validated))"
  using example_merges by (auto simp: applyChangesToContent_def mergeChanges_spec)

theorem merge_is_concatenation_witness:
  "validateChanges ''ABCDEFGHIJ''
     [\<lparr>startIndex = 6, endIndex = 8, oldContent = ''GH'', newContent = ''ZZ''\<rparr>,
      \<lparr>startIndex = 2, endIndex = 4, oldContent = ''CD'', newContent = ''XY''\<rparr>]
   = Inr [\<lparr>startIndex = 2, endIndex = 4, oldContent = ''CD'', newContent = ''XY''\<rparr>,
          \<lparr>startIndex = 6, endIndex = 8, oldContent = ''GH'', newContent = ''ZZ''\<rparr>]
   \<and> offsetsNonNegative
        [\<lparr>startIndex = 2, endIndex = 4, oldContent = ''CD'', newContent = ''XY''\<rparr>,
         \<lparr>startIndex = 6, endIndex = 8, oldContent = ''GH'', newContent = ''ZZ''\<rparr>]
   \<and> applyChangesToContent ''ABCDEFGHIJ''
        [\<lparr>startIndex = 6, endIndex = 8, oldContent = ''GH'', newContent = ''ZZ''\<rparr>,
         \<lparr>startIndex = 2, endIndex = 4, oldContent = ''CD'', newContent = ''XY''\<rparr>]
       = Inr (''AB'' @ ''XY'' @ ''EF'' @ ''ZZ'' @ ''IJ'')"
proof -
  let ?a = "\<lparr>startIndex = 2, endIndex = 4, oldContent = ''CD'', newContent = ''XY''\<rparr>"
  let ?b = "\<lparr>startIndex = 6, endIndex = 8, oldContent = ''GH'', newContent = ''ZZ''\<rparr>"
  have v: "validateChanges ''ABCDEFGHIJ'' [?b, ?a] = Inr [?a, ?b]"
    by (simp add: validateChanges_def js_slice_def sortChanges_def removeDuplicates_def)
  have n: "offsetsNonNegative [?a, ?b]"
    by (simp add: offsetsNonNegative_def)
  have s: "specMerge ''ABCDEFGHIJ'' [?a, ?b] = ''AB'' @ ''XY'' @ ''EF'' @ ''ZZ'' @ ''IJ''"
    by (simp add: specMerge_def textBefore_def textBetween_def textAfter_def)
  from merge_is_concatenation v n
  have "applyChangesToContent ''ABCDEFGHIJ'' [?b, ?a] = Inr (specMerge ''ABCDEFGHIJ'' [?a, ?b])"
    by blast
  with v n s show ?thesis by simp
qed

section \<open>Validation of a batch\<close>

lemma filterDuplicates_remdups_adj:
  "previous # filterDuplicates previous changes = remdups_adj (previous # changes)"
  by (induction changes arbitrary: previous) auto

lemma removeDuplicates_remdups_adj: "removeDuplicates changes = remdups_adj changes"
  by (cases changes) (simp_all add: removeDuplicates_def filterDuplicates_remdups_adj)

lemma findOverlap_None:
  "findOverlap changes = None \<longleftrightarrow> successively (\<lambda>p c. endIndex p \<le> startIndex c) changes"
  by (induction changes rule: findOverlap.induct) auto


lemma sorted_wrt_remdups_adj:
  "sorted_wrt P xs \<Longrightarrow> sorted_wrt P (remdups_adj xs)"
  by (induction xs rule: remdups_adj.induct) auto

text \<open>
  What does hold of every batch that reaches the merge: it is sorted by \<open>startIndex\<close>, no
  entry starts before the previous one ends, and no entry equals the one before it.
\<close>

lemma validated_sorted_nonoverlapping:
  assumes "validateChanges content changes = Inr validated"
  shows "sorted (map startIndex validated)"
    and "successively (\<lambda>p c. endIndex p \<le> startIndex c) validated"
    and "distinct_adj validated"
proof -
  from assms have v: "validated = remdups_adj (sort_key startIndex changes)"
    and o: "findOverlap validated = None"
    by (auto simp: validateChanges_def Let_def sortChanges_def removeDuplicates_remdups_adj
        split: option.splits)
  have "sorted_wrt (\<lambda>a b. startIndex a \<le> startIndex b) (sort_key startIndex changes)"
    using sorted_sort_key [of startIndex changes] by (simp add: sorted_map)
  then show "sorted (map startIndex validated)"
    unfolding v by (simp add: sorted_map sorted_wrt_remdups_adj)
  from o show "successively (\<lambda>p c. endIndex p \<le> startIndex c) validated"
    by (simp add: findOverlap_None)
  show "distinct_adj validated" unfolding v by (rule distinct_adj_remdups_adj)
qed

text \<open>
  When every change replaces a non-empty range, equal entries are neighbours after the
  sort, and the validated batch has no duplicates at all.
\<close>

lemma validated_distinct_if_ranges_nonempty:
  assumes "validateChanges content changes = Inr validated"
    and "list_all (\<lambda>c. startIndex c < endIndex c) changes"
  shows "distinct validated"
proof -
  from assms(1) have v: "validated = remdups_adj (sort_key startIndex changes)"
    by (auto simp: validateChanges_def Let_def sortChanges_def removeDuplicates_remdups_adj
        split: option.splits)
  have ne: "\<forall>c\<in>set validated. startIndex c < endIndex c"
    using assms(2) unfolding v by (simp add: list_all_iff)
  have "successively (\<lambda>p c. endIndex p \<le> startIndex c) validated"
    by (rule validated_sorted_nonoverlapping(2) [OF assms(1)])
  with ne have "successively (\<lambda>p c. startIndex p < startIndex c) validated"
    by (induction validated rule: induct_list012) auto
  then have "sorted_wrt (\<lambda>p c. startIndex p < startIndex c) validated"
    by (subst (asm) successively_conv_sorted_wrt) (auto simp: transp_def)
  then show ?thesis
    by (induction validated) auto
qed

text \<open>
  C2. The snapshot \<open>ABCDEFGHIJ\<close> with three insertions at offset 5, \<open>X\<close>, \<open>Y\<close> and \<open>X\<close>
  again: the sort keeps their order, each differs from its neighbour, no range overlaps,
  so the batch reaches the merge with the first entry twice and \<open>X\<close> is inserted twice.
\<close>

theorem separated_duplicates_survive:
  "validateChanges ''ABCDEFGHIJ''
     [\<lparr>startIndex = 5, endIndex = 5, oldContent = '''', newContent = ''X''\<rparr>,
      \<lparr>startIndex = 5, endIndex = 5, oldContent = '''', newContent = ''Y''\<rparr>,
      \<lparr>startIndex = 5, endIndex = 5, oldContent = '''', newContent = ''X''\<rparr>]
   = Inr [\<lparr>startIndex = 5, endIndex = 5, oldContent = '''', newContent = ''X''\<rparr>,
          \<lparr>startIndex = 5, endIndex = 5, oldContent = '''', newContent = ''Y''\<rparr>,
          \<lparr>startIndex = 5, endIndex = 5, oldContent = '''', newContent = ''X''\<rparr>]
   \<and> \<not> distinct
        [\<lparr>startIndex = 5, endIndex = 5, oldContent = '''', newContent = ''X''\<rparr>,
         \<lparr>startIndex = 5, endIndex = 5, oldContent = '''', newContent = ''Y''\<rparr>,
         \<lparr>startIndex = 5, endIndex = 5, oldContent = '''', newContent = ''X''\<rparr>]
   \<and> applyChangesToContent ''ABCDEFGHIJ''
        [\<lparr>startIndex = 5, endIndex = 5, oldContent = '''', newContent = ''X''\<rparr>,
         \<lparr>startIndex = 5, endIndex = 5, oldContent = '''', newContent = ''Y''\<rparr>,
         \<lparr>startIndex = 5, endIndex = 5, oldContent = '''', newContent = ''X''\<rparr>]
       = Inr ''ABCDEXYXFGHIJ''"
  by (simp add: applyChangesToContent_def validateChanges_def js_slice_def js_slice_from_def
      sortChanges_def removeDuplicates_def mergeChanges_def)

section \<open>Conflicts within one attempt\<close>





lemma processCycle_unfold:
  "processCycle env timeout n elapsed w =
     (case attempt (produced (env n)) (otherWriters (env n)) w of (ok, w') \<Rightarrow>
        if ok then (None, w')
        else if timeout < elapsed + Suc (duration (env n)) then (Some TimeoutExceeded, w')
        else processCycle env timeout (Suc n) (elapsed + Suc (duration (env n))) w')"
  unfolding processCycle_def by (subst retryWithTimeout.simps) simp



section \<open>The write and the retry\<close>

lemma attempt_success:
  assumes "attempt processFn others w = (True, w')"
  shows "others (fileContent w) = fileContent w"
    and "snd (processFn (fileContent w)) = Some (fileContent w')"
    and "written w' = written w @ [fileContent w']"
  using assms
  by (auto simp: attempt_def Let_def split: prod.splits option.splits if_splits)

lemma attempt_rejected:
  assumes "others (fileContent w) \<noteq> fileContent w"
  shows "\<not> fst (attempt processFn others w)"
    and "fileContent (snd (attempt processFn others w)) = others (fileContent w)"
  using assms
  by (auto simp: attempt_def Let_def split: prod.splits option.splits if_splits)

lemma retry_all_fail:
  "(\<And>k v. \<not> fst (fn k v)) \<Longrightarrow>
   fst (retryWithTimeout timeout fn time n elapsed w) = Some TimeoutExceeded"
proof (induction timeout fn time n elapsed w rule: retryWithTimeout.induct)
  case (1 timeout fn time n elapsed w)
  obtain ok w' where f: "fn n w = (ok, w')" by (cases "fn n w")
  with "1.prems" [of n w] have nok: "\<not> ok" by simp
  show ?case
  proof (cases "timeout < elapsed + Suc (time n)")
    case True
    with f nok show ?thesis by (subst retryWithTimeout.simps) simp
  next
    case False
    have "fst (retryWithTimeout timeout fn time (Suc n) (elapsed + Suc (time n)) w')
            = Some TimeoutExceeded"
      by (rule "1.IH" [OF f [symmetric] nok False "1.prems"])
    with f nok False show ?thesis by (subst retryWithTimeout.simps) simp
  qed
qed

lemma processWithRetry_all_fail:
  assumes "\<And>k v. \<not> fst (attempt (produced (env k)) (otherWriters (env k)) v)"
  shows "fst (processWithRetry env retryOptions w) = Some TimeoutExceeded"
  unfolding processWithRetry_def processCycle_def
  by (rule retry_all_fail) (rule assms)

text \<open>
  C4, as the code has it. An attempt stores the new content only when the file, at the time
  of the write, still holds the snapshot read at the start of the attempt; otherwise the
  file is left as found and the attempt fails. A successful attempt ends the cycle; a
  failed one with budget left is followed by the next attempt, which reads again. The
  budget is 60000 ms unless the caller gives another. A failed attempt that ends past the
  budget ends the cycle with the timeout error and no further attempt is made; so when no
  attempt succeeds, the cycle ends with the timeout error.
\<close>

theorem write_needs_unchanged_snapshot:
  "(\<forall>processFn others w w'. attempt processFn others w = (True, w') \<longrightarrow>
       others (fileContent w) = fileContent w
       \<and> snd (processFn (fileContent w)) = Some (fileContent w')
       \<and> written w' = written w @ [fileContent w'])
   \<and> (\<forall>processFn others w. others (fileContent w) \<noteq> fileContent w \<longrightarrow>
       \<not> fst (attempt processFn others w)
       \<and> fileContent (snd (attempt processFn others w)) = others (fileContent w))
   \<and> (\<forall>env timeout n elapsed w w'.
        attempt (produced (env n)) (otherWriters (env n)) w = (True, w') \<longrightarrow>
        processCycle env timeout n elapsed w = (None, w'))
   \<and> (\<forall>env timeout n elapsed w w'.
        attempt (produced (env n)) (otherWriters (env n)) w = (False, w')
        \<and> elapsed + Suc (duration (env n)) \<le> timeout \<longrightarrow>
        processCycle env timeout n elapsed w =
          processCycle env timeout (Suc n) (elapsed + Suc (duration (env n))) w')
   \<and> (\<forall>env w. processWithRetry env \<lparr>timeoutInMilliseconds = None\<rparr> w
                 = processCycle env 60000 0 0 w)
   \<and> (\<forall>env t w. processWithRetry env \<lparr>timeoutInMilliseconds = Some t\<rparr> w
                 = processCycle env t 0 0 w)
   \<and> (\<forall>env retryOptions w.
        (\<forall>k v. \<not> fst (attempt (produced (env k)) (otherWriters (env k)) v)) \<longrightarrow>
        fst (processWithRetry env retryOptions w) = Some TimeoutExceeded)
   \<and> (\<forall>env timeout n elapsed w w'.
        attempt (produced (env n)) (otherWriters (env n)) w = (False, w')
        \<and> timeout < elapsed + Suc (duration (env n)) \<longrightarrow>
        processCycle env timeout n elapsed w = (Some TimeoutExceeded, w'))"
proof (intro conjI allI impI, goal_cases)
  case 1 then show ?case by (rule attempt_success(1))
next
  case 2 then show ?case by (rule attempt_success(2))
next
  case 3 then show ?case by (rule attempt_success(3))
next
  case 4 then show ?case by (rule attempt_rejected(1))
next
  case 5 then show ?case by (rule attempt_rejected(2))
next
  case 6 then show ?case by (subst processCycle_unfold) simp
next
  case 7 then show ?case by (subst processCycle_unfold) simp
next
  case 8 show ?case by (simp add: processWithRetry_def overriddenTimeout_def)
next
  case 9 show ?case by (simp add: processWithRetry_def overriddenTimeout_def)
next
  case 10 then show ?case by (intro processWithRetry_all_fail) simp
next
  case 11 then show ?case by (subst processCycle_unfold) simp
qed

theorem write_needs_unchanged_snapshot_witness:
  "attempt
     (changesCallback [\<lparr>startIndex = 2, endIndex = 4, oldContent = ''CD'', newContent = ''XY''\<rparr>])
     id \<lparr>fileContent = ''ABCDEFGHIJ'', written = [], warnings = []\<rparr>
   = (True, \<lparr>fileContent = ''ABXYEFGHIJ'', written = [''ABXYEFGHIJ''], warnings = []\<rparr>)
   \<and> processCycle
        (changesEnv (everyAttempt
          \<lparr>produced = [\<lparr>startIndex = 2, endIndex = 4, oldContent = ''CD'', newContent = ''XY''\<rparr>],
           otherWriters = id, duration = 10\<rparr>))
        60000 0 0 \<lparr>fileContent = ''ABCDEFGHIJ'', written = [], warnings = []\<rparr>
      = (None, \<lparr>fileContent = ''ABXYEFGHIJ'', written = [''ABXYEFGHIJ''], warnings = []\<rparr>)
   \<and> appendText ''!'' ''ABCDEFGHIJ'' \<noteq> ''ABCDEFGHIJ''
   \<and> fileContent (snd (attempt
        (changesCallback [\<lparr>startIndex = 2, endIndex = 4, oldContent = ''CD'', newContent = ''XY''\<rparr>])
        (appendText ''!'') \<lparr>fileContent = ''ABCDEFGHIJ'', written = [], warnings = []\<rparr>))
      = ''ABCDEFGHIJ!''
   \<and> processCycle
        (changesEnv (everyAttempt
          \<lparr>produced = [\<lparr>startIndex = 2, endIndex = 4, oldContent = ''CD'', newContent = ''XY''\<rparr>],
           otherWriters = appendText ''!'', duration = 10\<rparr>))
        60000 0 0 \<lparr>fileContent = ''ABCDEFGHIJ'', written = [], warnings = []\<rparr>
      = processCycle
        (changesEnv (everyAttempt
          \<lparr>produced = [\<lparr>startIndex = 2, endIndex = 4, oldContent = ''CD'', newContent = ''XY''\<rparr>],
           otherWriters = appendText ''!'', duration = 10\<rparr>))
        60000 1 11
        \<lparr>fileContent = ''ABCDEFGHIJ!'', written = [''ABCDEFGHIJ!''],
         warnings = [ContentChangedWarning]\<rparr>
   \<and> fst (processWithRetry
        (changesEnv (everyAttempt
          \<lparr>produced = [\<lparr>startIndex = 0, endIndex = 0, oldContent = ''X'', newContent = ''''\<rparr>],
           otherWriters = id, duration = 10\<rparr>))
        \<lparr>timeoutInMilliseconds = None\<rparr>
        \<lparr>fileContent = ''ABCDEFGHIJ'', written = [], warnings = []\<rparr>)
      = Some TimeoutExceeded
   \<and> processCycle
        (changesEnv (everyAttempt
          \<lparr>produced = [\<lparr>startIndex = 2, endIndex = 4, oldContent = ''CD'', newContent = ''XY''\<rparr>],
           otherWriters = appendText ''!'', duration = 10\<rparr>))
        5 0 0 \<lparr>fileContent = ''ABCDEFGHIJ'', written = [], warnings = []\<rparr>
      = (Some TimeoutExceeded,
         \<lparr>fileContent = ''ABCDEFGHIJ!'', written = [''ABCDEFGHIJ!''],
          warnings = [ContentChangedWarning]\<rparr>)"
proof -
  let ?a = "\<lparr>startIndex = 2, endIndex = 4, oldContent = ''CD'', newContent = ''XY''\<rparr>"
  let ?m = "\<lparr>startIndex = 0, endIndex = 0, oldContent = ''X'', newContent = ''''\<rparr>"
  let ?w = "\<lparr>fileContent = ''ABCDEFGHIJ'', written = [], warnings = []\<rparr>"
  let ?w1 = "\<lparr>fileContent = ''ABXYEFGHIJ'', written = [''ABXYEFGHIJ''], warnings = []\<rparr>"
  let ?w2 = "\<lparr>fileContent = ''ABCDEFGHIJ!'', written = [''ABCDEFGHIJ!''],
              warnings = [ContentChangedWarning]\<rparr>"
  let ?ok = "changesEnv (everyAttempt \<lparr>produced = [?a], otherWriters = id, duration = 10\<rparr>)"
  let ?busy = "changesEnv (everyAttempt
                 \<lparr>produced = [?a], otherWriters = appendText ''!'', duration = 10\<rparr>)"
  let ?never = "changesEnv (everyAttempt \<lparr>produced = [?m], otherWriters = id, duration = 10\<rparr>)"
  have cb: "changesCallback [?a] ''ABCDEFGHIJ'' = ([], Some ''ABXYEFGHIJ'')"
    by (simp add: changesCallback_def applyChangesToContent_def validateChanges_def js_slice_def
        js_slice_from_def sortChanges_def removeDuplicates_def mergeChanges_def)
  have s: "attempt (produced (?ok 0)) (otherWriters (?ok 0)) ?w = (True, ?w1)"
    by (simp add: changesEnv_def everyAttempt_def attempt_def cb)
  have r: "appendText ''!'' (fileContent ?w) \<noteq> fileContent ?w"
    by (simp add: appendText_def)
  have f: "attempt (produced (?busy 0)) (otherWriters (?busy 0)) ?w = (False, ?w2)
           \<and> 0 + Suc (duration (?busy 0)) \<le> 60000"
    by (simp add: changesEnv_def everyAttempt_def attempt_def cb appendText_def Let_def)
  have n: "\<forall>k v. \<not> fst (attempt (produced (?never k)) (otherWriters (?never k)) v)"
    by (simp add: changesEnv_def everyAttempt_def attempt_def changesCallback_def
        applyChangesToContent_def validateChanges_def js_slice_def Let_def)
  note t = write_needs_unchanged_snapshot
  note t2 = t [THEN conjunct2, THEN conjunct1, rule_format]
  note t3 = t [THEN conjunct2, THEN conjunct2, THEN conjunct1, rule_format]
  note t4 = t [THEN conjunct2, THEN conjunct2, THEN conjunct2, THEN conjunct1, rule_format]
  note t7 = t [THEN conjunct2, THEN conjunct2, THEN conjunct2, THEN conjunct2, THEN conjunct2,
               THEN conjunct2, THEN conjunct1, rule_format]
  note t8 = t [THEN conjunct2, THEN conjunct2, THEN conjunct2, THEN conjunct2, THEN conjunct2,
               THEN conjunct2, THEN conjunct2, rule_format]
  have 1: "processCycle ?ok 60000 0 0 ?w = (None, ?w1)"
    by (rule t3 [of ?ok 0, OF s])
  have 2: "fileContent (snd (attempt (changesCallback [?a]) (appendText ''!'') ?w))
             = appendText ''!'' (fileContent ?w)"
    using t2 [of "appendText ''!''" ?w "changesCallback [?a]", OF r] by blast
  have 3: "processCycle ?busy 60000 0 0 ?w =
             processCycle ?busy 60000 (Suc 0) (0 + Suc (duration (?busy 0))) ?w2"
    by (rule t4 [of ?busy 0, OF f])
  have 4: "fst (processWithRetry ?never \<lparr>timeoutInMilliseconds = None\<rparr> ?w)
             = Some TimeoutExceeded"
    using n by (intro t7 [of ?never]) simp
  have g: "attempt (produced (?busy 0)) (otherWriters (?busy 0)) ?w = (False, ?w2)
           \<and> 5 < 0 + Suc (duration (?busy 0))"
    using f by (simp add: changesEnv_def everyAttempt_def)
  have 5: "processCycle ?busy 5 0 0 ?w = (Some TimeoutExceeded, ?w2)"
    by (rule t8 [of ?busy 0, OF g])
  have s': "attempt (changesCallback [?a]) id ?w = (True, ?w1)"
    using s by (simp add: changesEnv_def everyAttempt_def)
  from s' 1 r 2 3 4 5 show ?thesis
    by (simp add: appendText_def changesEnv_def everyAttempt_def)
qed

text \<open>
  C4 as stated fails on its last part: the attempt reports only success or failure to the
  retry, and a conflict is only logged. Two runs that end on different conflicts, a content
  mismatch and an overlap, raise the same error.
\<close>

theorem timeout_error_without_conflict_detail:
  "fst (applyFileChanges
     (everyAttempt
        \<lparr>produced = [\<lparr>startIndex = 0, endIndex = 1, oldContent = ''Z'', newContent = ''Y''\<rparr>],
         otherWriters = id, duration = 0\<rparr>)
     \<lparr>timeoutInMilliseconds = Some 0\<rparr>
     \<lparr>fileContent = ''AB'', written = [], warnings = []\<rparr>) = Some TimeoutExceeded
   \<and> warnings (snd (applyFileChanges
     (everyAttempt
        \<lparr>produced = [\<lparr>startIndex = 0, endIndex = 1, oldContent = ''Z'', newContent = ''Y''\<rparr>],
         otherWriters = id, duration = 0\<rparr>)
     \<lparr>timeoutInMilliseconds = Some 0\<rparr>
     \<lparr>fileContent = ''AB'', written = [], warnings = []\<rparr>))
     = [ConflictWarning (ContentMismatch 0 1 ''Z'' ''A'')]
   \<and> fst (applyFileChanges
     (everyAttempt
        \<lparr>produced = [\<lparr>startIndex = 0, endIndex = 2, oldContent = ''AB'', newContent = ''X''\<rparr>,
                     \<lparr>startIndex = 1, endIndex = 2, oldContent = ''B'', newContent = ''Y''\<rparr>],
         otherWriters = id, duration = 0\<rparr>)
     \<lparr>timeoutInMilliseconds = Some 0\<rparr>
     \<lparr>fileContent = ''AB'', written = [], warnings = []\<rparr>) = Some TimeoutExceeded
   \<and> warnings (snd (applyFileChanges
     (everyAttempt
        \<lparr>produced = [\<lparr>startIndex = 0, endIndex = 2, oldContent = ''AB'', newContent = ''X''\<rparr>,
                     \<lparr>startIndex = 1, endIndex = 2, oldContent = ''B'', newContent = ''Y''\<rparr>],
         otherWriters = id, duration = 0\<rparr>)
     \<lparr>timeoutInMilliseconds = Some 0\<rparr>
     \<lparr>fileContent = ''AB'', written = [], warnings = []\<rparr>))
     = [ConflictWarning (OverlappingChanges
          \<lparr>startIndex = 0, endIndex = 2, oldContent = ''AB'', newContent = ''X''\<rparr>
          \<lparr>startIndex = 1, endIndex = 2, oldContent = ''B'', newContent = ''Y''\<rparr>)]"
  by (simp add: applyFileChanges_def processWithRetry_def overriddenTimeout_def processCycle_unfold
      changesEnv_def everyAttempt_def attempt_def changesCallback_def applyChangesToContent_def
      validateChanges_def js_slice_def sortChanges_def removeDuplicates_def Let_def)

section \<open>Names of files\<close>

lemmas token_simps =
  matchToken_def matchTail_def isLineTerminator_def removeTokenFormatting_def
  validateTokens_def hasMatch_def isRegisteredToken_def formatters_def registerFormatter_def
  toLowerCase_def toLowerChar_def

lemmas filename_simps =
  validateFilename_def hasInvalidChars_def moreThanTwoDots_def trailingDotsOrSpaces_def
  INVALID_FILENAME_PATH_CHARS_def quoted_def Let_def

text \<open>
  C7, as the code has it. The empty name is refused; \<open>.\<close> and \<open>..\<close> are valid; \<open>a.\<close>
  and \<open>a...\<close> are refused for their trailing dots, the second one too, because the rule
  on more than two dots is for a name that is nothing but dots, such as \<open>...\<close>; \<open>a/b\<close>
  is refused for its invalid character.
\<close>

theorem validateFilename_examples:
  "validateFilename '''' True = ''File name is empty''
   \<and> validateFilename ''.'' True = ''''
   \<and> validateFilename ''..'' True = ''''
   \<and> validateFilename ''a...'' True
       = ''File name '' @ quoted ''a...'' @ '' contains trailing dots or spaces''
   \<and> validateFilename ''...'' True
       = ''File name '' @ quoted ''...'' @ '' contains more than two dots''
   \<and> validateFilename ''a.'' True
       = ''File name '' @ quoted ''a.'' @ '' contains trailing dots or spaces''
   \<and> validateFilename ''a/b'' True
       = ''File name '' @ quoted ''a/b'' @ '' contains invalid symbols''"
  by (simp add: token_simps filename_simps)

text \<open>
  C7 as stated fails at \<open>a...\<close>: the reason returned is not the one on more than two
  dots.
\<close>

theorem three_trailing_dots_not_more_than_two_dots:
  "validateFilename ''a...'' True
     \<noteq> ''File name '' @ quoted ''a...'' @ '' contains more than two dots''"
  by (simp add: token_simps filename_simps)

section \<open>Tokens in names and paths\<close>

lemma matchToken_other: "CHR ''$'' \<noteq> c \<Longrightarrow> matchToken (c # cs) = None"
  by (cases cs) (auto simp: matchToken_def)

lemma matchAll_plain: "CHR ''$'' \<notin> set p \<Longrightarrow> matchAll (p @ s) = map Text p @ matchAll s"
  by (induction p) (simp_all add: matchToken_other)

lemma matchFormat_valid:
  "validFormat f \<Longrightarrow> matchFormat (f @ CHR ''}'' # rest) = Some (f, rest)"
proof (induction f rule: induct_list012)
  case 1
  then show ?case by (simp add: validFormat_def)
next
  case (2 c)
  then show ?case by (simp add: validFormat_def)
next
  case (3 c d f)
  from "3.prems" have v: "validFormat (d # f)" and d: "d \<noteq> CHR ''}''" and c: "\<not> isLineTerminator c"
    by (auto simp: validFormat_def)
  from "3.IH"(2) [OF v] d c show ?case by simp
qed

lemma matchTail_brace: "matchTail (CHR ''}'' # rest) = Some (None, rest)"
  by (simp add: matchTail_def)

lemma matchTail_format:
  "validFormat f \<Longrightarrow> matchTail (CHR '':'' # f @ CHR ''}'' # rest) = Some (Some f, rest)"
  by (simp add: matchTail_def matchFormat_valid)

lemma matchTail_other: "c \<noteq> CHR '':'' \<Longrightarrow> c \<noteq> CHR ''}'' \<Longrightarrow> matchTail (c # cs) = None"
  by (simp add: matchTail_def)

lemma matchName_good:
  assumes "goodName n" and "matchTail t = Some (f, rest)"
  shows "matchName (n @ t) = Some (n, f, rest)"
  using assms(1)
proof (induction n rule: induct_list012)
  case 1
  then show ?case by (simp add: goodName_def)
next
  case (2 c)
  then show ?case using assms(2) by (simp add: goodName_def)
next
  case (3 c d n)
  from "3.prems" have g: "goodName (d # n)" and c: "\<not> isLineTerminator c"
    and d: "d \<noteq> CHR '':''" "d \<noteq> CHR ''}''"
    by (auto simp: goodName_def)
  from "3.IH"(2) [OF g] c matchTail_other [OF d] show ?case by simp
qed

lemma matchToken_bare:
  "goodName n \<Longrightarrow> matchToken (CHR ''$'' # CHR ''{'' # n @ CHR ''}'' # rest) = Some (n, None, rest)"
  using matchName_good [of n "CHR ''}'' # rest" None rest]
  by (simp add: matchToken_def matchTail_brace)

lemma matchToken_format:
  "goodName n \<Longrightarrow> validFormat f \<Longrightarrow>
   matchToken (CHR ''$'' # CHR ''{'' # n @ CHR '':'' # f @ CHR ''}'' # rest)
     = Some (n, Some f, rest)"
  using matchName_good [of n "CHR '':'' # f @ CHR ''}'' # rest" "Some f" rest]
  by (simp add: matchToken_def matchTail_format)


lemma formatters_keys:
  "formatters k \<noteq> None \<Longrightarrow> k \<noteq> [] \<and> set k \<subseteq> set ''abcdefghijklmnopqrstuvwxyz''"
  by (simp add: formatters_def registerFormatter_def toLowerCase_def toLowerChar_def
      split: if_splits)

lemma toLowerChar_letter:
  "toLowerChar c \<in> set ''abcdefghijklmnopqrstuvwxyz'' \<Longrightarrow>
   \<not> isLineTerminator c \<and> c \<noteq> CHR '':'' \<and> c \<noteq> CHR ''}''"
  by (auto simp: toLowerChar_def isLineTerminator_def)

lemma registered_goodName:
  assumes "isRegisteredToken n"
  shows "goodName n"
proof -
  from assms have k: "toLowerCase n \<noteq> []"
    and s: "set (toLowerCase n) \<subseteq> set ''abcdefghijklmnopqrstuvwxyz''"
    using formatters_keys [of "toLowerCase n"] by (simp_all add: isRegisteredToken_def)
  from k have "n \<noteq> []" by (simp add: toLowerCase_def)
  moreover have "\<not> isLineTerminator c \<and> c \<noteq> CHR '':'' \<and> c \<noteq> CHR ''}''" if "c \<in> set n" for c
  proof -
    from that have "toLowerChar c \<in> set (toLowerCase n)" by (simp add: toLowerCase_def)
    with s show ?thesis using toLowerChar_letter by blast
  qed
  ultimately show ?thesis by (simp add: goodName_def list_all_iff)
qed

lemma matchAll_segment:
  "wellFormed seg \<Longrightarrow> matchAll (renderSegment seg @ rest) = segmentPieces seg @ matchAll rest"
proof (induction seg rule: wellFormed.induct)
  case (1 s)
  then show ?case by (simp add: matchAll_plain)
next
  case (2 n)
  then have "matchToken (CHR ''$'' # CHR ''{'' # n @ CHR ''}'' # rest) = Some (n, None, rest)"
    by (simp add: matchToken_bare registered_goodName)
  then show ?case by simp
next
  case (3 n f)
  then have "matchToken (CHR ''$'' # CHR ''{'' # n @ CHR '':'' # f @ CHR ''}'' # rest)
               = Some (n, Some f, rest)"
    by (simp add: matchToken_format registered_goodName)
  then show ?case by simp
qed

lemma matchAll_render:
  "list_all wellFormed segs \<Longrightarrow> matchAll (render segs) = concat (map segmentPieces segs)"
  by (induction segs) (simp_all add: render_def matchAll_segment)


lemma bare_segmentPieces:
  "concat (map bareToken (segmentPieces seg)) = renderSegment (withoutFormat seg)"
  by (cases seg) (simp_all add: concat_map_singleton comp_def)

lemma wellFormed_withoutFormat: "wellFormed seg \<Longrightarrow> wellFormed (withoutFormat seg)"
  by (induction seg rule: wellFormed.induct) simp_all

lemma removeTokenFormatting_render:
  assumes "list_all wellFormed segs"
  shows "removeTokenFormatting (render segs) = render (map withoutFormat segs)"
proof -
  have "removeTokenFormatting (render segs)
          = concat (map bareToken (concat (map segmentPieces segs)))"
    by (simp add: removeTokenFormatting_def matchAll_render [OF assms])
  also have "\<dots> = render (map withoutFormat segs)"
    unfolding render_def by (induction segs) (simp_all add: bare_segmentPieces)
  finally show ?thesis .
qed

lemma firstUnregistered_append:
  "firstUnregistered (ps @ qs) =
     (case firstUnregistered ps of Some n \<Rightarrow> Some n | None \<Rightarrow> firstUnregistered qs)"
  by (induction ps rule: firstUnregistered.induct) simp_all

lemma firstUnregistered_segment: "wellFormed seg \<Longrightarrow> firstUnregistered (segmentPieces seg) = None"
proof (induction seg rule: wellFormed.induct)
  case (1 s)
  show ?case by (induction s) simp_all
qed simp_all

lemma validateTokens_render:
  assumes "list_all wellFormed segs"
  shows "validateTokens (render segs) = None"
proof -
  from assms have "firstUnregistered (concat (map segmentPieces segs)) = None"
    by (induction segs) (simp_all add: firstUnregistered_append firstUnregistered_segment)
  then show ?thesis by (simp add: validateTokens_def matchAll_render [OF assms])
qed

text \<open>
  C10. For a template of plain text and registered tokens, whatever their formats hold
  (reserved characters and the path separator included), \<open>validateFilename\<close> with tokens
  allowed and \<open>validatePath\<close> first rewrite every token to its bare form and find no
  unknown token, and give the result they give for the template with the formats left out.
\<close>

theorem format_is_dropped_before_validation:
  assumes "list_all wellFormed segs"
  shows "removeTokenFormatting (render segs) = render (map withoutFormat segs)
    \<and> validateTokens (removeTokenFormatting (render segs)) = None
    \<and> validateFilename (render segs) True
        = validateFilename (render (map withoutFormat segs)) True
    \<and> validatePath (render segs) = validatePath (render (map withoutFormat segs))"
proof -
  let ?bare = "map withoutFormat segs"
  from assms have b: "list_all wellFormed ?bare"
    by (induction segs) (simp_all add: wellFormed_withoutFormat)
  have "withoutFormat (withoutFormat seg) = withoutFormat seg" for seg
    by (cases seg) simp_all
  then have bb: "map withoutFormat ?bare = ?bare"
    by (induction segs) simp_all
  have r: "removeTokenFormatting (render segs) = render ?bare"
    by (rule removeTokenFormatting_render [OF assms])
  have r': "removeTokenFormatting (render ?bare) = render ?bare"
    using removeTokenFormatting_render [OF b] unfolding bb .
  have t: "validateTokens (removeTokenFormatting (render segs)) = None"
    unfolding r by (rule validateTokens_render [OF b])
  have f: "validateFilename (render segs) True = validateFilename (render ?bare) True"
    by (simp add: validateFilename_def r r')
  have p: "validatePath (render segs) = validatePath (render ?bare)"
    by (simp add: validatePath_def validatePathWith_def r r')
  from r t f p show ?thesis by simp
qed

theorem format_is_dropped_before_validation_witness:
  "list_all wellFormed
     [Plain ''a/'', Placeholder ''Date'' (Some ''YYYY/MM''), Plain ''/b'']
   \<and> validatePath ''a/${Date:YYYY/MM}/b'' = validatePath ''a/${Date}/b''
   \<and> validatePath ''a/${Date:YYYY/MM}/b'' = ''''
   \<and> list_all wellFormed [Placeholder ''date'' (Some INVALID_FILENAME_PATH_CHARS)]
   \<and> validateFilename (''${date:'' @ INVALID_FILENAME_PATH_CHARS @ ''}'') True = ''''"
proof -
  let ?p = "[Plain ''a/'', Placeholder ''Date'' (Some ''YYYY/MM''), Plain ''/b'']"
  let ?f = "[Placeholder ''date'' (Some INVALID_FILENAME_PATH_CHARS)]"
  have wp: "list_all wellFormed ?p"
    by (simp add: validFormat_def token_simps)
  have wf: "list_all wellFormed ?f"
    by (simp add: validFormat_def token_simps INVALID_FILENAME_PATH_CHARS_def)
  from format_is_dropped_before_validation [OF wp]
  have 1: "validatePath ''a/${Date:YYYY/MM}/b'' = validatePath ''a/${Date}/b''"
    by (simp add: render_def)
  have 2: "validatePath ''a/${Date}/b'' = ''''"
    by (simp add: validatePath_def validatePathWith_def trimStart_def trimEnd_def
        token_simps filename_simps)
  from format_is_dropped_before_validation [OF wf]
  have 3: "validateFilename (''${date:'' @ INVALID_FILENAME_PATH_CHARS @ ''}'') True
             = validateFilename ''${date}'' True"
    by (simp add: render_def)
  have 4: "validateFilename ''${date}'' True = ''''"
    by (simp add: token_simps filename_simps)
  from wp wf 1 2 3 4 show ?thesis by simp
qed

section \<open>Paths\<close>

lemma matchFormat_single: "matchFormat [c] = None"
  by simp

lemma matchFormat_two:
  "matchFormat (c # d # ds) =
     (if isLineTerminator c then None
      else if d = CHR ''}'' then Some ([c], ds)
      else map_option (\<lambda>(f, r). (c # f, r)) (matchFormat (d # ds)))"
  by simp

lemma matchFormat_noBrace: "CHR ''}'' \<notin> set t \<Longrightarrow> matchFormat t = None"
proof (induction t rule: induct_list012)
  case (3 c d t)
  from "3.prems" have "d \<noteq> CHR ''}''" and "CHR ''}'' \<notin> set (d # t)" by auto
  with "3.IH"(2) show ?case by (simp only: matchFormat_two) simp
qed simp_all

lemma matchTail_noBrace: "CHR ''}'' \<notin> set t \<Longrightarrow> matchTail t = None"
  by (cases t) (auto simp: matchTail_def matchFormat_noBrace simp del: matchFormat.simps)

lemma matchName_noBrace: "CHR ''}'' \<notin> set t \<Longrightarrow> matchName t = None"
  by (induction t) (simp_all add: matchTail_noBrace)

lemma matchToken_noBrace: "CHR ''}'' \<notin> set t \<Longrightarrow> matchToken t = None"
proof (cases t)
  case (Cons c cs)
  assume n: "CHR ''}'' \<notin> set t"
  show ?thesis
  proof (cases cs)
    case Nil
    with Cons show ?thesis by (simp add: matchToken_def)
  next
    case cs: (Cons d ds)
    with Cons n have "matchName ds = None" by (simp add: matchName_noBrace)
    with Cons cs show ?thesis by (simp add: matchToken_def)
  qed
qed (simp add: matchToken_def)

lemma matchAll_noBrace: "CHR ''}'' \<notin> set t \<Longrightarrow> matchAll t = map Text t"
proof (induction t)
  case (Cons c t)
  then have "matchToken (c # t) = None" by (intro matchToken_noBrace)
  with Cons show ?case by simp
qed simp

lemma matchFormat_append:
  assumes "CHR ''}'' \<notin> set t"
  shows "matchFormat (s @ t) = map_option (\<lambda>(f, r). (f, r @ t)) (matchFormat s)"
proof (induction s rule: induct_list012)
  case 1
  show ?case using assms by (simp add: matchFormat_noBrace)
next
  case (2 c)
  have "CHR ''}'' \<notin> set (c # t) \<or> c = CHR ''}''" using assms by auto
  then have "matchFormat (c # t) = None"
  proof
    assume "CHR ''}'' \<notin> set (c # t)"
    then show ?thesis by (rule matchFormat_noBrace)
  next
    assume c: "c = CHR ''}''"
    show ?thesis
    proof (cases t)
      case Nil
      then show ?thesis by simp
    next
      case (Cons d ds)
      with assms have "d \<noteq> CHR ''}''" by auto
      moreover have "matchFormat (d # ds) = None"
        using assms Cons by (intro matchFormat_noBrace) simp
      ultimately show ?thesis unfolding Cons by (simp only: matchFormat_two) simp
    qed
  qed
  then show ?case by simp
next
  case (3 c d s)
  have "matchFormat ((c # d # s) @ t) =
        (if isLineTerminator c then None
         else if d = CHR ''}'' then Some ([c], s @ t)
         else map_option (\<lambda>(f, r). (c # f, r)) (matchFormat ((d # s) @ t)))"
    by (simp only: append_Cons matchFormat_two)
  also have "\<dots> = map_option (\<lambda>(f, r). (f, r @ t)) (matchFormat (c # d # s))"
    unfolding "3.IH"(2)
    by (simp only: matchFormat_two) (simp add: option.map_comp comp_def case_prod_beta)
  finally show ?case .
qed

lemma matchTail_append:
  assumes "CHR ''}'' \<notin> set t"
  shows "matchTail (s @ t) = map_option (\<lambda>(f, r). (f, r @ t)) (matchTail s)"
proof (cases s)
  case Nil
  have "matchTail t = None" using assms by (rule matchTail_noBrace)
  with Nil show ?thesis by (simp add: matchTail_def)
next
  case (Cons c cs)
  show ?thesis
  proof (cases "matchFormat cs")
    case None
    with Cons show ?thesis
      by (simp add: matchTail_def matchFormat_append [OF assms])
  next
    case (Some a)
    with Cons show ?thesis
      by (cases a) (simp add: matchTail_def matchFormat_append [OF assms])
  qed
qed

lemma matchName_append:
  assumes "CHR ''}'' \<notin> set t"
  shows "matchName (s @ t) = map_option (\<lambda>(n, f, r). (n, f, r @ t)) (matchName s)"
proof (induction s)
  case Nil
  show ?case using assms by (simp add: matchName_noBrace)
next
  case (Cons c s)
  show ?case
  proof (cases "matchTail s")
    case None
    with Cons show ?thesis
      by (simp add: matchTail_append [OF assms] option.map_comp comp_def case_prod_beta)
  next
    case (Some a)
    then show ?thesis
      by (cases a) (simp add: matchTail_append [OF assms])
  qed
qed

lemma matchToken_append:
  assumes "CHR ''}'' \<notin> set t"
  shows "matchToken (s @ t) = map_option (\<lambda>(n, f, r). (n, f, r @ t)) (matchToken s)"
proof (cases s)
  case Nil
  have "matchToken t = None" using assms by (rule matchToken_noBrace)
  with Nil show ?thesis by (simp add: matchToken_def)
next
  case s: (Cons c cs)
  show ?thesis
  proof (cases cs)
    case Nil
    have "matchToken (c # t) = None"
    proof (cases t)
      case Nil
      then show ?thesis by (simp add: matchToken_def)
    next
      case (Cons d ds)
      with assms have "matchName ds = None" by (simp add: matchName_noBrace)
      with Cons show ?thesis by (simp add: matchToken_def)
    qed
    with s Nil show ?thesis by (simp add: matchToken_def)
  next
    case (Cons d ds)
    with s show ?thesis by (simp add: matchToken_def matchName_append [OF assms])
  qed
qed

lemma matchAll_append:
  assumes "CHR ''}'' \<notin> set t"
  shows "matchAll (s @ t) = matchAll s @ map Text t"
proof (induction s rule: matchAll.induct)
  case 1
  show ?case using assms by (simp add: matchAll_noBrace)
next
  case (2 c cs)
  show ?case
  proof (cases "matchToken (c # cs)")
    case None
    with "2.IH"(1) have "matchAll (cs @ t) = matchAll cs @ map Text t" by blast
    moreover from None have "matchToken (c # cs @ t) = None"
      using matchToken_append [OF assms, of "c # cs"] by simp
    ultimately show ?thesis using None by simp
  next
    case (Some a)
    obtain n f r where a: "a = (n, f, r)" by (cases a)
    with Some "2.IH"(2) have "matchAll (r @ t) = matchAll r @ map Text t" by blast
    moreover from Some a have "matchToken (c # cs @ t) = Some (n, f, r @ t)"
      using matchToken_append [OF assms, of "c # cs"] by simp
    ultimately show ?thesis using Some a by simp
  qed
qed


lemma concat_bare_Text: "concat (map (bareToken \<circ> Text) t) = t"
  by (induction t) simp_all

lemma firstUnregistered_Text: "firstUnregistered (map Text t) = None"
  by (induction t) simp_all

lemma firstUnregistered_Text_append: "firstUnregistered (map Text t @ ps) = firstUnregistered ps"
  by (induction t) simp_all

lemma firstUnregistered_append_Text: "firstUnregistered (ps @ map Text t) = firstUnregistered ps"
  by (induction ps rule: firstUnregistered.induct) (simp_all add: firstUnregistered_Text)

lemma matchAll_between:
  assumes "CHR ''$'' \<notin> set pre" and "CHR ''}'' \<notin> set post"
  shows "matchAll (pre @ s @ post) = map Text pre @ matchAll s @ map Text post"
  by (simp add: matchAll_plain [OF assms(1)] matchAll_append [OF assms(2)])

lemma removeTokenFormatting_between:
  assumes "CHR ''$'' \<notin> set pre" and "CHR ''}'' \<notin> set post"
  shows "removeTokenFormatting (pre @ s @ post) = pre @ removeTokenFormatting s @ post"
  by (simp add: removeTokenFormatting_def matchAll_between [OF assms] concat_bare_Text)

lemma validateTokens_between:
  assumes "CHR ''$'' \<notin> set pre" and "CHR ''}'' \<notin> set post"
  shows "validateTokens (pre @ s @ post) = validateTokens s"
  by (simp add: validateTokens_def matchAll_between [OF assms]
      firstUnregistered_Text_append firstUnregistered_append_Text)

lemma trimStart_replicate: "trimStart (replicate n sep @ s) sep = trimStart s sep"
  by (induction n) (simp_all add: trimStart_def)

lemma trimEnd_replicate: "trimEnd (s @ replicate n sep) sep = trimEnd s sep"
proof -
  have "dropWhile (\<lambda>c. c = sep) (replicate n sep @ rev s) = dropWhile (\<lambda>c. c = sep) (rev s)"
    by (induction n) simp_all
  then show ?thesis by (simp add: trimEnd_def)
qed

lemma trim_replicate:
  "trimEnd (trimStart (replicate n sep @ s @ replicate m sep) sep) sep
     = trimEnd (trimStart s sep) sep"
proof (cases "\<forall>c\<in>set s. c = sep")
  case True
  then have 1: "trimStart (s @ replicate m sep) sep = []"
    by (auto simp: trimStart_def)
  from True have 2: "trimStart s sep = []"
    by (auto simp: trimStart_def)
  show ?thesis unfolding trimStart_replicate 1 2 ..
next
  case False
  then obtain c where "c \<in> set s" "c \<noteq> sep" by blast
  then have "dropWhile (\<lambda>c. c = sep) (s @ replicate m sep)
               = dropWhile (\<lambda>c. c = sep) s @ replicate m sep"
    by (intro dropWhile_append1) auto
  then show ?thesis
    by (simp add: trimStart_replicate) (simp add: trimStart_def trimEnd_replicate)
qed

lemma validatePath_separators:
  "validatePath (replicate n CHR ''/'' @ path @ replicate m CHR ''/'') = validatePath path"
proof -
  have pre: "CHR ''$'' \<notin> set (replicate n CHR ''/'')"
    and post: "CHR ''}'' \<notin> set (replicate m CHR ''/'')"
    by auto
  have r: "removeTokenFormatting (replicate n CHR ''/'' @ path @ replicate m CHR ''/'')
             = replicate n CHR ''/'' @ removeTokenFormatting path @ replicate m CHR ''/''"
    by (rule removeTokenFormatting_between [OF pre post])
  have v: "validateTokens (replicate n CHR ''/'' @ removeTokenFormatting path @ replicate m CHR ''/'')
             = validateTokens (removeTokenFormatting path)"
    by (rule validateTokens_between [OF pre post])
  show ?thesis
    unfolding validatePath_def validatePathWith_def Let_def r v trim_replicate ..
qed

lemma validateParts_firstError:
  "validateParts parts = firstError (map (\<lambda>part. validateFilename part True) parts)"
  by (induction parts) (simp_all add: firstError_def Let_def)

lemma matchFormat_text: "matchFormat s = Some (f, r) \<Longrightarrow> s = f @ CHR ''}'' # r"
proof (induction s arbitrary: f rule: induct_list012)
  case 1
  then show ?case by simp
next
  case (2 c)
  then show ?case by (simp split: if_splits)
next
  case (3 c d ds)
  show ?case
  proof (cases "d = CHR ''}''")
    case True
    with "3.prems" show ?thesis by (simp only: matchFormat_two split: if_splits) auto
  next
    case False
    with "3.prems" obtain f' where f': "matchFormat (d # ds) = Some (f', r)" and f: "f = c # f'"
      by (simp only: matchFormat_two split: if_splits) auto
    from "3.IH"(2) [OF f'] f show ?thesis by simp
  qed
qed

lemma matchTail_text:
  assumes "matchTail s = Some (fo, r)"
  shows "CHR ''$'' # CHR ''{'' # n @ s = tokenText n fo @ r"
proof (cases s)
  case Nil
  with assms show ?thesis by (simp add: matchTail_def)
next
  case (Cons c cs)
  show ?thesis
  proof (cases "c = CHR '':''")
    case True
    show ?thesis
    proof (cases "matchFormat cs")
      case None
      with assms Cons True show ?thesis by (simp add: matchTail_def)
    next
      case (Some a)
      obtain f r' where a: "a = (f, r')" by (cases a)
      with Some assms Cons True have "fo = Some f" "r' = r" by (simp_all add: matchTail_def)
      with matchFormat_text [of cs f r] Some a Cons True show ?thesis by simp
    qed
  next
    case False
    with assms Cons show ?thesis by (auto simp: matchTail_def split: if_splits)
  qed
qed

lemma matchName_text:
  "matchName s = Some (n, fo, r) \<Longrightarrow> CHR ''$'' # CHR ''{'' # s = tokenText n fo @ r"
proof (induction s arbitrary: n)
  case Nil
  then show ?case by simp
next
  case (Cons c cs)
  show ?case
  proof (cases "matchTail cs")
    case None
    with Cons.prems obtain n' where n': "matchName cs = Some (n', fo, r)" and n: "n = c # n'"
      by (auto split: if_splits)
    from Cons.IH [OF n'] n show ?thesis by (cases fo) simp_all
  next
    case (Some a)
    with Cons.prems have "matchTail cs = Some (fo, r)" and "n = [c]"
      by (cases a; simp split: if_splits)+
    with matchTail_text [of cs fo r "[c]"] show ?thesis by simp
  qed
qed

lemma matchToken_text: "matchToken s = Some (n, fo, r) \<Longrightarrow> s = tokenText n fo @ r"
proof -
  assume m: "matchToken s = Some (n, fo, r)"
  then obtain t where s: "s = CHR ''$'' # CHR ''{'' # t" and "matchName t = Some (n, fo, r)"
    by (cases s; cases "tl s") (auto simp: matchToken_def split: if_splits)
  with matchName_text [of t n fo r] show ?thesis by simp
qed

lemma removeTokenFormatting_ends:
  "s \<noteq> [] \<Longrightarrow>
   removeTokenFormatting s \<noteq> [] \<and> hd (removeTokenFormatting s) = hd s
   \<and> last (removeTokenFormatting s) = last s"
proof (induction s rule: matchAll.induct)
  case 1
  then show ?case by simp
next
  case (2 c cs)
  show ?case
  proof (cases "matchToken (c # cs)")
    case None
    then have r: "removeTokenFormatting (c # cs) = c # removeTokenFormatting cs"
      by (simp add: removeTokenFormatting_def)
    show ?thesis
    proof (cases cs)
      case Nil
      with r show ?thesis by (simp add: removeTokenFormatting_def)
    next
      case (Cons d ds)
      with "2.IH"(1) [OF None] r show ?thesis by simp
    qed
  next
    case (Some a)
    obtain n fo r where a: "a = (n, fo, r)" by (cases a)
    with Some have s: "c # cs = tokenText n fo @ r" by (simp add: matchToken_text)
    from Some a have R: "removeTokenFormatting (c # cs) = ''${'' @ n @ ''}'' @ removeTokenFormatting r"
      by (simp add: removeTokenFormatting_def)
    from s have c: "c = CHR ''$''" by (cases fo) simp_all
    show ?thesis
    proof (cases r)
      case Nil
      with s have "last (c # cs) = CHR ''}''" by (cases fo) simp_all
      with R c Nil show ?thesis by (simp add: removeTokenFormatting_def)
    next
      case (Cons d ds)
      with "2.IH"(2) [OF Some a [symmetric] refl] have
        "removeTokenFormatting r \<noteq> []" "last (removeTokenFormatting r) = last r" by simp_all
      moreover from s Cons have "last (c # cs) = last r" by (cases fo) simp_all
      ultimately show ?thesis using R c by simp
    qed
  qed
qed

lemma trimsLeading_trimStart: "trimsLeading trimStart"
proof -
  have "trimStart s sep = s \<and> trimStart (sep # s) sep = s" if "s = [] \<or> hd s \<noteq> sep" for s sep
    using that by (cases s) (auto simp: trimStart_def)
  then show ?thesis unfolding trimsLeading_def by blast
qed

lemma trimsLeading_trimStartOnce: "trimsLeading trimStartOnce"
proof -
  have "trimStartOnce s sep = s \<and> trimStartOnce (sep # s) sep = s"
    if "s = [] \<or> hd s \<noteq> sep" for s sep
    using that by (cases s) (auto simp: trimStartOnce_def)
  then show ?thesis unfolding trimsLeading_def by blast
qed

lemma trimsTrailing_trimEnd: "trimsTrailing trimEnd"
proof -
  have "trimEnd s sep = s \<and> trimEnd (s @ [sep]) sep = s" if "s = [] \<or> last s \<noteq> sep" for s sep
  proof -
    have "dropWhile (\<lambda>c. c = sep) (rev s) = rev s"
      using that by (cases "rev s") (auto simp: last_rev [symmetric] simp del: last_rev)
    then show ?thesis by (simp add: trimEnd_def)
  qed
  then show ?thesis unfolding trimsTrailing_def by blast
qed

lemma trimsTrailing_trimEndOnce: "trimsTrailing trimEndOnce"
proof -
  have "trimEndOnce s sep = s \<and> trimEndOnce (s @ [sep]) sep = s"
    if "s = [] \<or> last s \<noteq> sep" for s sep
    using that by (auto simp: trimEndOnce_def)
  then show ?thesis unfolding trimsTrailing_def by blast
qed

lemma validatePathWith_one_separator:
  assumes lead: "trimsLeading trimS" and trail: "trimsTrailing trimE"
    and path: "path \<noteq> []" "hd path \<noteq> CHR ''/''" "last path \<noteq> CHR ''/''"
  shows "validatePathWith trimS trimE (CHR ''/'' # path @ ''/'') = validatePathWith trimS trimE path"
    and "validatePathWith trimS trimE (CHR ''/'' # path) = validatePathWith trimS trimE path"
    and "validatePathWith trimS trimE (path @ ''/'') = validatePathWith trimS trimE path"
proof -
  let ?R = "removeTokenFormatting path"
  from removeTokenFormatting_ends [OF path(1)] path
  have R: "?R \<noteq> []" "hd ?R \<noteq> CHR ''/''" "last ?R \<noteq> CHR ''/''" by simp_all
  have r1: "removeTokenFormatting (CHR ''/'' # path @ ''/'') = CHR ''/'' # ?R @ ''/''"
    using removeTokenFormatting_between [of "''/''" "''/''" path] by simp
  have r2: "removeTokenFormatting (CHR ''/'' # path) = CHR ''/'' # ?R"
    using removeTokenFormatting_between [of "''/''" "[]" path] by simp
  have r3: "removeTokenFormatting (path @ ''/'') = ?R @ ''/''"
    using removeTokenFormatting_between [of "[]" "''/''" path] by simp
  have v1: "validateTokens (CHR ''/'' # ?R @ ''/'') = validateTokens ?R"
    using validateTokens_between [of "''/''" "''/''" ?R] by simp
  have v2: "validateTokens (CHR ''/'' # ?R) = validateTokens ?R"
    using validateTokens_between [of "''/''" "[]" ?R] by simp
  have v3: "validateTokens (?R @ ''/'') = validateTokens ?R"
    using validateTokens_between [of "[]" "''/''" ?R] by simp
  from R have Rs: "hd (?R @ ''/'') \<noteq> CHR ''/''" by simp
  have s0: "trimS ?R CHR ''/'' = ?R"
    using lead R(2) unfolding trimsLeading_def by blast
  have s1: "trimS (CHR ''/'' # ?R @ ''/'') CHR ''/'' = ?R @ ''/''"
    using lead Rs unfolding trimsLeading_def by blast
  have s2: "trimS (CHR ''/'' # ?R) CHR ''/'' = ?R"
    using lead R(2) unfolding trimsLeading_def by blast
  have s3: "trimS (?R @ ''/'') CHR ''/'' = ?R @ ''/''"
    using lead Rs unfolding trimsLeading_def by blast
  have e0: "trimE ?R CHR ''/'' = ?R"
    using trail R(3) unfolding trimsTrailing_def by blast
  have e1: "trimE (?R @ ''/'') CHR ''/'' = ?R"
    using trail R(3) unfolding trimsTrailing_def by blast
  show "validatePathWith trimS trimE (CHR ''/'' # path @ ''/'') = validatePathWith trimS trimE path"
    unfolding validatePathWith_def Let_def r1 v1 s1 e1 s0 e0 ..
  show "validatePathWith trimS trimE (CHR ''/'' # path) = validatePathWith trimS trimE path"
    unfolding validatePathWith_def Let_def r2 v2 s2 e0 s0 ..
  show "validatePathWith trimS trimE (path @ ''/'') = validatePathWith trimS trimE path"
    unfolding validatePathWith_def Let_def r3 v3 s3 e1 s0 e0 ..
qed

text \<open>
  C8. \<open>validatePath\<close> gives the same result with and without leading and trailing
  separators, as for \<open>/a/b/\<close> and \<open>a/b\<close>; for one separator before and after a path
  that has none at its ends this holds whichever way the helpers trim. When the tokens
  of the path are all registered, a path that is empty after the trimming is valid, and
  any other path is split on the separator and gets the first error of
  \<open>validateFilename\<close>, tokens allowed, among its parts; an unregistered token is reported
  before that.
\<close>

theorem validatePath_ignores_outer_separators:
  "validatePath ''/a/b/'' = validatePath ''a/b''
   \<and> (\<forall>n m path.
         validatePath (replicate n CHR ''/'' @ path @ replicate m CHR ''/'') = validatePath path)
   \<and> (\<forall>trimS trimE path.
         trimsLeading trimS \<and> trimsTrailing trimE
         \<and> path \<noteq> [] \<and> hd path \<noteq> CHR ''/'' \<and> last path \<noteq> CHR ''/'' \<longrightarrow>
         validatePathWith trimS trimE (CHR ''/'' # path @ ''/'') = validatePathWith trimS trimE path
         \<and> validatePathWith trimS trimE (CHR ''/'' # path) = validatePathWith trimS trimE path
         \<and> validatePathWith trimS trimE (path @ ''/'') = validatePathWith trimS trimE path)
   \<and> (\<forall>trimS trimE path. validateTokens (removeTokenFormatting path) = None \<longrightarrow>
         validatePathWith trimS trimE path =
           (let trimmed = trimE (trimS (removeTokenFormatting path) CHR ''/'') CHR ''/''
            in if trimmed = '''' then ''''
               else firstError (map (\<lambda>part. validateFilename part True)
                                  (split trimmed CHR ''/''))))
   \<and> (\<forall>trimS trimE path unknownToken.
         validateTokens (removeTokenFormatting path) = Some unknownToken \<longrightarrow>
         validatePathWith trimS trimE path = ''Unknown token: '' @ unknownToken)"
proof (intro conjI allI impI, goal_cases)
  case 1
  have "validatePath (replicate 1 CHR ''/'' @ ''a/b'' @ replicate 1 CHR ''/'') = validatePath ''a/b''"
    by (rule validatePath_separators)
  then show ?case by simp
next
  case (2 n m path)
  show ?case by (rule validatePath_separators)
next
  case (3 trimS trimE path)
  then show ?case by (intro validatePathWith_one_separator(1)) simp_all
next
  case (4 trimS trimE path)
  then show ?case by (intro validatePathWith_one_separator(2)) simp_all
next
  case (5 trimS trimE path)
  then show ?case by (intro validatePathWith_one_separator(3)) simp_all
next
  case (6 trimS trimE path)
  then show ?case by (simp add: validatePathWith_def Let_def validateParts_firstError)
next
  case (7 trimS trimE path unknownToken)
  then show ?case by (simp add: validatePathWith_def Let_def)
qed

theorem validatePath_ignores_outer_separators_witness:
  "trimsLeading trimStartOnce \<and> trimsTrailing trimEndOnce
   \<and> validatePathWith trimStartOnce trimEndOnce ''/a/b/''
       = validatePathWith trimStartOnce trimEndOnce ''a/b''
   \<and> validateTokens (removeTokenFormatting ''//a/b./'') = None
   \<and> validatePath ''//a/b./''
       = ''File name '' @ quoted ''b.'' @ '' contains trailing dots or spaces''
   \<and> validateTokens (removeTokenFormatting ''a/${nope}'') = Some ''nope''
   \<and> validatePath ''a/${nope}'' = ''Unknown token: nope''"
proof -
  note t = validatePath_ignores_outer_separators
  note t3 = t [THEN conjunct2, THEN conjunct2, THEN conjunct1, rule_format]
  note t4 = t [THEN conjunct2, THEN conjunct2, THEN conjunct2, THEN conjunct1, rule_format]
  note t5 = t [THEN conjunct2, THEN conjunct2, THEN conjunct2, THEN conjunct2, rule_format]
  have h: "trimsLeading trimStartOnce \<and> trimsTrailing trimEndOnce
           \<and> ''a/b'' \<noteq> [] \<and> hd ''a/b'' \<noteq> CHR ''/'' \<and> last ''a/b'' \<noteq> CHR ''/''"
    by (simp add: trimsLeading_trimStartOnce trimsTrailing_trimEndOnce)
  have 0: "validatePathWith trimStartOnce trimEndOnce ''/a/b/''
             = validatePathWith trimStartOnce trimEndOnce ''a/b''"
    using t3 [OF h] by simp
  have 1: "validateTokens (removeTokenFormatting ''//a/b./'') = None"
    by (simp add: token_simps)
  have r: "removeTokenFormatting ''//a/b./'' = ''//a/b./''"
    by (simp add: token_simps)
  have 2: "validatePath ''//a/b./''
             = ''File name '' @ quoted ''b.'' @ '' contains trailing dots or spaces''"
    unfolding validatePath_def t4 [OF 1] r
    by (simp add: trimStart_def trimEnd_def firstError_def token_simps filename_simps)
  have 3: "validateTokens (removeTokenFormatting ''a/${nope}'') = Some ''nope''"
    by (simp add: token_simps)
  have 4: "validatePath ''a/${nope}'' = ''Unknown token: nope''"
    unfolding validatePath_def using t5 [OF 3] by simp
  from h 0 1 2 3 4 show ?thesis by simp
qed

section \<open>Filling a template\<close>

lemma runFormatter_not_Thrown: "fst (runFormatter hst f subs format h) \<noteq> Thrown e"
  by (cases f) (auto simp: generateRandomSymbol_def split: prod.splits option.splits)

lemma replacer_Thrown:
  "fst (replacer hst subs n format h) = Thrown e \<longleftrightarrow> (\<not> isRegisteredToken n \<and> e = InvalidToken n)"
  using runFormatter_not_Thrown [of hst _ subs format h e]
  by (auto simp: replacer_def isRegisteredToken_def split: option.splits)

lemma firstThrown_callReplacer:
  "firstThrown (fst (callReplacer (replacer hst subs) ps h))
     = map_option InvalidToken (firstUnregistered ps)"
proof (induction ps arbitrary: h rule: firstUnregistered.induct)
  case 1
  show ?case by simp
next
  case (2 c ps)
  show ?case by (simp add: "2.IH")
next
  case (3 n f ps)
  obtain x h1 where r: "replacer hst subs n f h = (x, h1)" by (cases "replacer hst subs n f h")
  obtain xs h2 where c: "callReplacer (replacer hst subs) ps h1 = (xs, h2)"
    by (cases "callReplacer (replacer hst subs) ps h1")
  show ?case
  proof (cases "isRegisteredToken n")
    case True
    with r have "\<And>e. x \<noteq> Thrown e"
      using replacer_Thrown [of hst subs n f h] by auto
    then have "firstThrown (x # xs) = firstThrown xs" by (cases x) auto
    with True r c "3.IH" [OF _, of h1] show ?thesis by simp
  next
    case False
    with r have "x = Thrown (InvalidToken n)"
      by (simp add: replacer_def isRegisteredToken_def)
    with False r c show ?thesis by simp
  qed
qed

lemma firstUnregistered_Some:
  "firstUnregistered ps = Some X \<Longrightarrow>
   \<exists>pre f post. ps = pre @ Token X f # post \<and> list_all registeredPiece pre \<and> \<not> isRegisteredToken X"
proof (induction ps rule: firstUnregistered.induct)
  case 1
  then show ?case by simp
next
  case (2 c ps)
  then obtain pre f post where "ps = pre @ Token X f # post" "list_all registeredPiece pre"
    "\<not> isRegisteredToken X" by auto
  then have "Text c # ps = (Text c # pre) @ Token X f # post \<and> list_all registeredPiece (Text c # pre)
      \<and> \<not> isRegisteredToken X" by simp
  then show ?case by blast
next
  case (3 n f ps)
  show ?case
  proof (cases "isRegisteredToken n")
    case True
    with 3 obtain pre g post where "ps = pre @ Token X g # post" "list_all registeredPiece pre"
      "\<not> isRegisteredToken X" by auto
    with True have "Token n f # ps = (Token n f # pre) @ Token X g # post
      \<and> list_all registeredPiece (Token n f # pre) \<and> \<not> isRegisteredToken X" by simp
    then show ?thesis by blast
  next
    case False
    with "3.prems" have "n = X" by simp
    with False have "Token n f # ps = [] @ Token X f # ps \<and> list_all registeredPiece []
      \<and> \<not> isRegisteredToken X" by simp
    then show ?thesis by blast
  qed
qed

text \<open>
  C5. When a template has a token whose name is not registered, and \<open>X\<close> is the name of
  the leftmost such token (what \<open>validateTokens\<close> returns), \<open>fillTemplate\<close> fails with the
  error for \<open>X\<close> and returns no text, whatever the formatters of the other tokens do.
\<close>

theorem unknown_token_aborts_fill:
  assumes "validateTokens template = Some X"
  shows "fst (fillTemplate hst subs template h) = Inl (InvalidToken X)
     \<and> (\<exists>pre f post. matchAll template = pre @ Token X f # post
           \<and> list_all registeredPiece pre \<and> \<not> isRegisteredToken X)"
proof -
  from assms have u: "firstUnregistered (matchAll template) = Some X"
    by (simp add: validateTokens_def)
  obtain xs h' where c: "callReplacer (replacer hst subs) (matchAll template) h = (xs, h')"
    by (cases "callReplacer (replacer hst subs) (matchAll template) h")
  have "firstThrown xs = Some (InvalidToken X)"
    using firstThrown_callReplacer [of hst subs "matchAll template" h] c u by simp
  with c have "fst (fillTemplate hst subs template h) = Inl (InvalidToken X)"
    by (simp add: fillTemplate_def replaceAllAsync_def)
  with firstUnregistered_Some [OF u] show ?thesis by simp
qed

theorem unknown_token_aborts_fill_witness:
  "validateTokens ''${fileName}-${Bogus:x}${nope}'' = Some ''Bogus''
   \<and> fst (fillTemplate (fixedHost ''2024'' 3 ''u-u'' (Some ''answer''))
          \<lparr>folderPath = ''notes'', fileName = ''note'', filePath = ''notes/note.md'',
           folderName = ''notes'', originalCopiedFileExtension = ''png'',
           originalCopiedFileName = ''image''\<rparr>
          ''${fileName}-${Bogus:x}${nope}'' ())
       = Inl (InvalidToken ''Bogus'')"
proof -
  have v: "validateTokens ''${fileName}-${Bogus:x}${nope}'' = Some ''Bogus''"
    by (simp add: token_simps)
  show ?thesis
    by (rule conjI [OF v unknown_token_aborts_fill [OF v, THEN conjunct1]])
qed

section \<open>No token left in a filled template\<close>

lemma brace_not_terminator: "\<not> isLineTerminator CHR ''}''"
  by (simp add: isLineTerminator_def)

lemma closable_noBrace: "closable s \<Longrightarrow> \<not> noBraceOnLine s"
  by (cases s) (auto simp: closable_def)

lemma matchFormat_closable: "matchFormat s \<noteq> None \<longleftrightarrow> closable s"
proof (induction s rule: induct_list012)
  case 1
  show ?case by (simp add: closable_def)
next
  case (2 c)
  show ?case by (simp add: closable_def)
next
  case (3 c d ds)
  show ?case
  proof (cases "isLineTerminator c")
    case True
    then show ?thesis by (simp only: matchFormat_two) (simp add: closable_def)
  next
    case False
    show ?thesis
    proof (cases "d = CHR ''}''")
      case True
      with False show ?thesis
        by (simp only: matchFormat_two) (simp add: closable_def brace_not_terminator)
    next
      case d: False
      have "matchFormat (c # d # ds) \<noteq> None \<longleftrightarrow> matchFormat (d # ds) \<noteq> None"
        using False d by (simp only: matchFormat_two) simp
      also have "\<dots> \<longleftrightarrow> closable (d # ds)" by (rule "3.IH"(2))
      also have "\<dots> \<longleftrightarrow> closable (c # d # ds)"
        using False d by (simp add: closable_def)
      finally show ?thesis .
    qed
  qed
qed

lemma matchTail_closable:
  "matchTail s \<noteq> None \<longleftrightarrow>
     (case s of [] \<Rightarrow> False | c # cs \<Rightarrow> c = CHR ''}'' \<or> (c = CHR '':'' \<and> closable cs))"
proof (cases s)
  case Nil
  then show ?thesis by (simp add: matchTail_def)
next
  case (Cons c cs)
  show ?thesis
  proof (cases "matchFormat cs")
    case None
    then have "\<not> closable cs" using matchFormat_closable [of cs] by simp
    with None Cons show ?thesis by (simp add: matchTail_def)
  next
    case (Some a)
    then have "closable cs" using matchFormat_closable [of cs] by simp
    with Some Cons show ?thesis by (cases a) (simp add: matchTail_def)
  qed
qed

lemma matchName_closable: "matchName s \<noteq> None \<longleftrightarrow> closable s"
proof (induction s)
  case Nil
  show ?case by (simp add: closable_def)
next
  case (Cons c cs)
  have "matchName (c # cs) \<noteq> None \<longleftrightarrow>
        \<not> isLineTerminator c \<and> (matchTail cs \<noteq> None \<or> matchName cs \<noteq> None)"
    by (cases "matchTail cs") auto
  also have "\<dots> \<longleftrightarrow> \<not> isLineTerminator c \<and> \<not> noBraceOnLine cs"
  proof (cases cs)
    case Nil
    then show ?thesis by (simp add: matchTail_def)
  next
    case cs: (Cons d ds)
    have "matchTail cs \<noteq> None \<or> matchName cs \<noteq> None \<longleftrightarrow> \<not> noBraceOnLine cs"
      unfolding matchTail_closable Cons.IH
      using closable_noBrace [of ds]
      by (auto simp: cs closable_def isLineTerminator_def)
    then show ?thesis by simp
  qed
  finally show ?case by (simp add: closable_def)
qed

lemma matchToken_closable:
  "matchToken (CHR ''$'' # CHR ''{'' # s) = None \<longleftrightarrow> \<not> closable s"
  using matchName_closable [of s] by (cases "matchName s") (simp_all add: matchToken_def)

lemma matchToken_Some_shape:
  assumes "matchToken s = Some a"
  shows "\<exists>t. s = CHR ''$'' # CHR ''{'' # t \<and> closable t"
proof -
  from assms obtain t where s: "s = CHR ''$'' # CHR ''{'' # t" and "matchName t = Some a"
    by (cases s; cases "tl s") (auto simp: matchToken_def split: if_splits)
  then have "closable t" using matchName_closable [of t] by simp
  with s show ?thesis by blast
qed


lemma noBraceOnLine_assemble:
  "noBraceOnLine s \<Longrightarrow> noBraceOnLine (assemble (matchAll s) ts)"
proof (induction s arbitrary: ts rule: matchAll.induct)
  case 1
  show ?case by simp
next
  case (2 c cs)
  show ?case
  proof (cases "matchToken (c # cs)")
    case None
    show ?thesis
    proof (cases "isLineTerminator c")
      case True
      with None show ?thesis by simp
    next
      case False
      with "2.prems" have "c \<noteq> CHR ''}''" and "noBraceOnLine cs" by simp_all
      with "2.IH"(1) [OF None] None show ?thesis by simp
    qed
  next
    case (Some a)
    then obtain t where t: "c # cs = CHR ''$'' # CHR ''{'' # t" and "closable t"
      using matchToken_Some_shape by blast
    then have "\<not> noBraceOnLine t" by (simp add: closable_noBrace)
    moreover from "2.prems" t have "noBraceOnLine t"
      by (simp add: isLineTerminator_def)
    ultimately show ?thesis by simp
  qed
qed

lemma not_closable_assemble:
  "\<not> closable s \<Longrightarrow> \<not> closable (assemble (matchAll s) ts)"
proof (cases s)
  case Nil
  then show ?thesis by (simp add: closable_def)
next
  case (Cons c cs)
  assume n: "\<not> closable s"
  show ?thesis
  proof (cases "matchToken (c # cs)")
    case None
    show ?thesis
    proof (cases "isLineTerminator c")
      case True
      with None Cons show ?thesis by (simp add: closable_def)
    next
      case False
      with n Cons have "noBraceOnLine cs" by (simp add: closable_def)
      then have "noBraceOnLine (assemble (matchAll cs) ts)" by (rule noBraceOnLine_assemble)
      with None Cons show ?thesis by (simp add: closable_def)
    qed
  next
    case (Some a)
    then obtain t where t: "c # cs = CHR ''$'' # CHR ''{'' # t" and "closable t"
      using matchToken_Some_shape by blast
    then have "\<not> noBraceOnLine t" by (simp add: closable_noBrace)
    with t Cons have "closable s" by (simp add: closable_def isLineTerminator_def)
    with n show ?thesis by simp
  qed
qed

lemma unmatched_clean_append:
  "CHR ''$'' \<notin> set t \<Longrightarrow> unmatched out \<Longrightarrow> unmatched (t @ out)"
  by (induction t) (simp_all add: matchToken_other)

lemma dollar_then_other: "d \<noteq> CHR ''{'' \<Longrightarrow> matchToken (c # d # out) = None"
  by (simp add: matchToken_def)

lemma dollar_before_assembled:
  assumes none: "matchToken (CHR ''$'' # cs) = None"
    and clean: "list_all cleanText ts"
    and count: "tokenCount (matchAll cs) \<le> length ts"
  shows "matchToken (CHR ''$'' # assemble (matchAll cs) ts) = None"
proof (cases cs)
  case Nil
  then show ?thesis by (simp add: matchToken_def)
next
  case (Cons d ds)
  show ?thesis
  proof (cases "matchToken (d # ds)")
    case (Some a)
    obtain n f r where a: "a = (n, f, r)" by (cases a)
    with Some count Cons obtain t ts' where ts: "ts = t # ts'" by (cases ts) auto
    with clean obtain e t' where t: "t = e # t'" and "e \<noteq> CHR ''{''"
      by (cases t) (auto simp: cleanText_def)
    with Some a Cons ts show ?thesis by (simp add: dollar_then_other)
  next
    case None
    show ?thesis
    proof (cases "d = CHR ''{''")
      case False
      with None Cons show ?thesis by (simp add: dollar_then_other)
    next
      case True
      with none Cons have "\<not> closable ds" using matchToken_closable [of ds] by simp
      then have "\<not> closable (assemble (matchAll ds) ts)" by (rule not_closable_assemble)
      then have "matchToken (CHR ''$'' # CHR ''{'' # assemble (matchAll ds) ts) = None"
        using matchToken_closable by blast
      with None Cons True show ?thesis by simp
    qed
  qed
qed

lemma unmatched_assemble:
  "list_all cleanText ts \<Longrightarrow> tokenCount (matchAll s) \<le> length ts \<Longrightarrow>
   unmatched (assemble (matchAll s) ts)"
proof (induction s arbitrary: ts rule: matchAll.induct)
  case 1
  show ?case by simp
next
  case (2 c cs)
  show ?case
  proof (cases "matchToken (c # cs)")
    case None
    with "2.prems" have count: "tokenCount (matchAll cs) \<le> length ts" by simp
    from "2.IH"(1) [OF None "2.prems"(1) count]
    have u: "unmatched (assemble (matchAll cs) ts)" .
    have "matchToken (c # assemble (matchAll cs) ts) = None"
    proof (cases "c = CHR ''$''")
      case True
      with None have "matchToken (CHR ''$'' # cs) = None" by simp
      from dollar_before_assembled [OF this "2.prems"(1) count] True show ?thesis by simp
    next
      case False
      then show ?thesis by (intro matchToken_other) simp
    qed
    with u None show ?thesis by simp
  next
    case (Some a)
    obtain n f r where a: "a = (n, f, r)" by (cases a)
    with Some "2.prems"(2) obtain t ts' where ts: "ts = t # ts'" by (cases ts) auto
    with "2.prems" Some a have clean: "list_all cleanText ts'" and t: "cleanText t"
      and count: "tokenCount (matchAll r) \<le> length ts'" by simp_all
    from "2.IH"(2) [OF Some a [symmetric] refl clean count]
    have "unmatched (assemble (matchAll r) ts')" .
    with t have "unmatched (t @ assemble (matchAll r) ts')"
      by (intro unmatched_clean_append) (simp_all add: cleanText_def)
    with Some a ts show ?thesis by simp
  qed
qed

lemma unmatched_matchAll: "unmatched out \<Longrightarrow> matchAll out = map Text out"
  by (induction out) simp_all

lemma unmatched_no_match: "unmatched out \<Longrightarrow> \<not> hasMatch out"
  by (simp add: hasMatch_def unmatched_matchAll list_ex_iff)

lemma length_callReplacer: "length (fst (callReplacer r ps h)) = tokenCount ps"
proof (induction ps arbitrary: h rule: tokenCount.induct)
  case (3 n f ps)
  obtain x h1 where x: "r n f h = (x, h1)" by (cases "r n f h")
  obtain xs h2 where xs: "callReplacer r ps h1 = (xs, h2)" by (cases "callReplacer r ps h1")
  with "3.IH" [of h1] x show ?case by simp
qed simp_all

lemma all_fulfilled:
  "firstThrown xs = None \<Longrightarrow> firstRejected xs = None \<Longrightarrow>
   length (fulfilledTexts xs) = length xs"
proof (induction xs)
  case (Cons x xs)
  then show ?case by (cases x) simp_all
qed simp

text \<open>
  C6, as the code has it. The texts of the formatters replace the matches in one pass and
  are not scanned again. When \<open>fillTemplate\<close> returns a text and every formatter returned
  a text that is not empty and holds neither a dollar sign nor an opening brace, the
  pattern matches nowhere in the result.
\<close>

theorem filled_template_has_no_marker:
  assumes "fst (fillTemplate hst subs template h) = Inr out"
    and "list_all cleanText (formatterTexts hst subs template h)"
  shows "out = assemble (matchAll template) (formatterTexts hst subs template h)
     \<and> validateTokens template = None
     \<and> \<not> hasMatch out"
proof -
  obtain xs h' where c: "callReplacer (replacer hst subs) (matchAll template) h = (xs, h')"
    by (cases "callReplacer (replacer hst subs) (matchAll template) h")
  from assms(1) c have thrown: "firstThrown xs = None" and rejected: "firstRejected xs = None"
    and out: "out = assemble (matchAll template) (fulfilledTexts xs)"
    by (auto simp: fillTemplate_def replaceAllAsync_def split: option.splits)
  from c have texts: "formatterTexts hst subs template h = fulfilledTexts xs"
    by (simp add: formatterTexts_def)
  have "length xs = tokenCount (matchAll template)"
    using length_callReplacer [of "replacer hst subs" "matchAll template" h] c by simp
  with all_fulfilled [OF thrown rejected]
  have "tokenCount (matchAll template) \<le> length (fulfilledTexts xs)" by simp
  with assms(2) have "unmatched out"
    unfolding out texts by (intro unmatched_assemble)
  then have "\<not> hasMatch out" by (rule unmatched_no_match)
  moreover have "validateTokens template = None"
    using firstThrown_callReplacer [of hst subs "matchAll template" h] c thrown
    by (simp add: validateTokens_def)
  ultimately show ?thesis using out texts by simp
qed

theorem filled_template_has_no_marker_witness:
  "fst (fillTemplate (fixedHost ''2024'' 3 ''u-u'' (Some ''answer''))
          \<lparr>folderPath = ''notes'', fileName = ''note'', filePath = ''notes/note.md'',
           folderName = ''notes'', originalCopiedFileExtension = ''png'',
           originalCopiedFileName = ''image''\<rparr>
          ''$${fileName}-${date:YYYY}{${randomDigit}}'' ())
     = Inr ''$note-2024{3}''
   \<and> list_all cleanText
        (formatterTexts (fixedHost ''2024'' 3 ''u-u'' (Some ''answer''))
          \<lparr>folderPath = ''notes'', fileName = ''note'', filePath = ''notes/note.md'',
           folderName = ''notes'', originalCopiedFileExtension = ''png'',
           originalCopiedFileName = ''image''\<rparr>
          ''$${fileName}-${date:YYYY}{${randomDigit}}'' ())
   \<and> \<not> hasMatch ''$note-2024{3}''"
proof -
  let ?h = "fixedHost ''2024'' 3 ''u-u'' (Some ''answer'')"
  let ?s = "\<lparr>folderPath = ''notes'', fileName = ''note'', filePath = ''notes/note.md'',
             folderName = ''notes'', originalCopiedFileExtension = ''png'',
             originalCopiedFileName = ''image''\<rparr>"
  let ?t = "''$${fileName}-${date:YYYY}{${randomDigit}}''"
  have m: "matchAll ?t =
      [Text CHR ''$'', Token ''fileName'' None, Text CHR ''-'', Token ''date'' (Some ''YYYY''),
       Text CHR ''{'', Token ''randomDigit'' None, Text CHR ''}'']"
    by (simp add: matchToken_def matchTail_def isLineTerminator_def)
  have c: "callReplacer (replacer ?h ?s) (matchAll ?t) ()
             = ([Fulfilled ''note'', Fulfilled ''2024'', Fulfilled ''3''], ())"
    unfolding m
    by (simp add: replacer_def fixedHost_def generateRandomSymbol_def formatters_def
        registerFormatter_def toLowerCase_def toLowerChar_def)
  have f: "fst (fillTemplate ?h ?s ?t ()) = Inr ''$note-2024{3}''"
    by (simp only: fillTemplate_def replaceAllAsync_def c, simp only: m) simp
  have l: "list_all cleanText (formatterTexts ?h ?s ?t ())"
    by (simp only: formatterTexts_def c) (simp add: cleanText_def)
  from filled_template_has_no_marker [OF f l] have "\<not> hasMatch ''$note-2024{3}''" by blast
  with f l show ?thesis by blast
qed

text \<open>
  C6 as stated fails when a formatter returns the empty text, as the one of
  \<open>originalCopiedFileName\<close> does when no original file was given: the only match of
  \<^verbatim>\<open>$${originalCopiedFileName}{a}\<close> is a registered token, and the result is \<^verbatim>\<open>${a}\<close>.
\<close>

theorem empty_replacement_leaves_marker:
  "validateTokens ''$${originalCopiedFileName}{a}'' = None
   \<and> fst (fillTemplate (fixedHost ''2024'' 3 ''u-u'' None)
          \<lparr>folderPath = ''notes'', fileName = ''note'', filePath = ''notes/note.md'',
           folderName = ''notes'', originalCopiedFileExtension = '''',
           originalCopiedFileName = ''''\<rparr>
          ''$${originalCopiedFileName}{a}'' ())
       = Inr ''${a}''
   \<and> hasMatch ''${a}''"
proof -
  have m: "matchAll ''$${originalCopiedFileName}{a}'' =
      [Text CHR ''$'', Token ''originalCopiedFileName'' None,
       Text CHR ''{'', Text CHR ''a'', Text CHR ''}'']"
    by (simp add: matchToken_def matchTail_def isLineTerminator_def)
  have r: "formatters (toLowerCase ''originalCopiedFileName'') = Some OriginalCopiedFileName"
    by (simp add: formatters_def registerFormatter_def toLowerCase_def toLowerChar_def)
  have 1: "validateTokens ''$${originalCopiedFileName}{a}'' = None"
    unfolding validateTokens_def m by (simp add: isRegisteredToken_def r)
  have 2: "fst (fillTemplate (fixedHost ''2024'' 3 ''u-u'' None)
          \<lparr>folderPath = ''notes'', fileName = ''note'', filePath = ''notes/note.md'',
           folderName = ''notes'', originalCopiedFileExtension = '''',
           originalCopiedFileName = ''''\<rparr>
          ''$${originalCopiedFileName}{a}'' ()) = Inr ''${a}''"
    unfolding fillTemplate_def replaceAllAsync_def m by (simp add: replacer_def r)
  have 3: "hasMatch ''${a}''"
    by (simp add: hasMatch_def matchToken_def matchTail_def isLineTerminator_def)
  from 1 2 3 show ?thesis by simp
qed

section \<open>Removing a folder\<close>

text \<open>
  C9. A folder with a file that a note still links to, a subfolder holding one file that
  nothing links to, and another such file. The linked file sets \<open>canRemove\<close> to false; the
  file after it is still deleted, but the subfolder is not entered, because
  \<open>canRemove &&= ...\<close> evaluates the call only while \<open>canRemove\<close> is true. With the
  subfolder first it is removed.
\<close>

theorem subfolder_after_failure_is_skipped:
  "removeFolderSafe \<lparr>backlinks = linkedFrom ''F/a.png'' ''other.md'', undeletable = neverFails\<rparr>
     None
     (TFolder ''F''
        [TFile ''F/a.png'', TFolder ''F/sub'' [TFile ''F/sub/b.png''], TFile ''F/c.png''])
     []
   = (False, [''F/c.png''])
   \<and> removeFolderSafe \<lparr>backlinks = linkedFrom ''F/a.png'' ''other.md'', undeletable = neverFails\<rparr>
       None
       (TFolder ''F''
          [TFolder ''F/sub'' [TFile ''F/sub/b.png''], TFile ''F/a.png'', TFile ''F/c.png''])
       []
     = (False, [''F/sub/b.png'', ''F/sub'', ''F/c.png''])"
  by (simp add: backlinkCount_def linkedFrom_def neverFails_def)


end
